theory Spec2Isabelle
  imports Main "HOL-Library.Multiset"
begin

section \<open>JavaScript values used by \<^verbatim>\<open>src/App.jsx\<close>\<close>

text \<open>
  The application is a single React component file. Its logic is: a form that parses two
  text fields with \<^verbatim>\<open>parseInt\<close>, a controller that writes to an IndexedDB object store and
  reloads its cache, and two aggregation functions that bucket entries in a plain object
  and list the buckets with \<^verbatim>\<open>Object.keys\<close>.
\<close>

subsection \<open>Numbers\<close>

text \<open>
  A number is an IEEE 754 double. The numbers of this program are results of
  \<^verbatim>\<open>parseInt\<close>, their products with 60, sums of these, and the floor of a quotient and
  a remainder by 60: every one of them is a double with an integer value, an infinity or
  \<^verbatim>\<open>NaN\<close>. \<open>Num n\<close> is the double whose value is the integer \<open>n\<close>, \<open>Infinity s\<close>
  the infinity that is negative when \<open>s\<close> holds. The sign of zero is not modelled:
  no operation the program applies tells \<^verbatim>\<open>-0\<close> from \<^verbatim>\<open>0\<close>.
\<close>

datatype jsnum = Num int | NaN | Infinity bool

text \<open>
  The integers from \<open>-(2\<^sup>5\<^sup>3 - 1)\<close> to \<open>2\<^sup>5\<^sup>3 - 1\<close> are the safe ones: doubles
  hold them, and their sums and products within that range, exactly.
\<close>

definition MAX_SAFE_INTEGER :: int where
  "MAX_SAFE_INTEGER = 2 ^ 53 - 1"

definition safe :: "int \<Rightarrow> bool" where
  "safe n = (\<bar>n\<bar> \<le> MAX_SAFE_INTEGER)"

text \<open>The number of binary digits of a positive integer.\<close>

function bits :: "int \<Rightarrow> nat" where
  "bits n = (if n \<le> 0 then 0 else Suc (bits (n div 2)))"
  by pat_completeness auto
termination
  by (relation "measure nat") auto

declare bits.simps [simp del]

text \<open>
  The quotient \<open>p / d\<close> (with \<open>0 \<le> p\<close> and \<open>0 < d\<close>) rounded to the nearest integer,
  a tie going to the even one.
\<close>

definition nearest_even :: "int \<Rightarrow> int \<Rightarrow> int" where
  "nearest_even p d =
     (let m = p div d; r = p mod d
      in if d < 2 * r \<or> (2 * r = d \<and> odd m) then m + 1 else m)"

text \<open>
  The value of the double nearest to a non-negative integer: the integer is cut to 53
  significant binary digits by rounding to nearest, ties to even.
\<close>

definition round53 :: "int \<Rightarrow> int" where
  "round53 a = (let e = bits a - 53 in nearest_even a (2 ^ e) * 2 ^ e)"

text \<open>
  The Number value for a mathematical integer. A magnitude that rounds to \<open>2\<^sup>1\<^sup>0\<^sup>2\<^sup>4\<close> or
  more overflows to an infinity.
\<close>

definition Number_of :: "int \<Rightarrow> jsnum" where
  "Number_of n =
     (let v = round53 \<bar>n\<bar>
      in if 2 ^ 1024 \<le> v then Infinity (n < 0) else Num (if n < 0 then - v else v))"

text \<open>
  \<^verbatim>\<open>+\<close> and \<^verbatim>\<open>*\<close>: the exact result, rounded once.
\<close>

fun js_add :: "jsnum \<Rightarrow> jsnum \<Rightarrow> jsnum" where
  "js_add (Num a) (Num b) = Number_of (a + b)"
| "js_add NaN _ = NaN"
| "js_add _ NaN = NaN"
| "js_add (Infinity s) (Infinity t) = (if s = t then Infinity s else NaN)"
| "js_add (Infinity s) (Num b) = Infinity s"
| "js_add (Num a) (Infinity t) = Infinity t"

fun js_mul :: "jsnum \<Rightarrow> jsnum \<Rightarrow> jsnum" where
  "js_mul (Num a) (Num b) = Number_of (a * b)"
| "js_mul NaN _ = NaN"
| "js_mul _ NaN = NaN"
| "js_mul (Infinity s) (Infinity t) = Infinity (s \<noteq> t)"
| "js_mul (Infinity s) (Num b) = (if b = 0 then NaN else Infinity (s \<noteq> (b < 0)))"
| "js_mul (Num a) (Infinity t) = (if a = 0 then NaN else Infinity (t \<noteq> (a < 0)))"

text \<open>
  The double \<^verbatim>\<open>a / 60\<close> for an integer-valued double \<open>a\<close> with \<open>60 \<le> a\<close>, as a pair
  \<open>(m, s)\<close> that stands for \<open>m / 2\<^sup>s\<close>: the exact quotient has as many binary digits
  before the point as \<open>a div 60\<close>, and is rounded, ties to even, to 53 significant
  binary digits.
\<close>

definition quotient_60 :: "int \<Rightarrow> int \<times> nat" where
  "quotient_60 a =
     (let b = bits (a div 60)
      in if 53 \<le> b then (nearest_even a (60 * 2 ^ (b - 53)) * 2 ^ (b - 53), 0)
         else (nearest_even (a * 2 ^ (53 - b)) 60, 53 - b))"

text \<open>
  \<^verbatim>\<open>Math.floor(totalMinutes / 60)\<close>: the floor of the rounded quotient. Below 60 in
  magnitude the quotient and its double lie strictly between \<open>-1\<close> and \<open>1\<close>.
\<close>

fun floor_div_60 :: "jsnum \<Rightarrow> jsnum" where
  "floor_div_60 (Num a) =
     (if \<bar>a\<bar> < 60 then Num (if a < 0 then - 1 else 0)
      else let (m, s) = quotient_60 \<bar>a\<bar> in Num ((if a < 0 then - m else m) div 2 ^ s))"
| "floor_div_60 NaN = NaN"
| "floor_div_60 (Infinity s) = Infinity s"

declare floor_div_60.simps(1) [simp del]

text \<open>
  \<^verbatim>\<open>totalMinutes % 60\<close>: the remainder of the division that truncates towards zero,
  which is exact and has the sign of the dividend.
\<close>

fun rem_60 :: "jsnum \<Rightarrow> jsnum" where
  "rem_60 (Num a) = Num (if 0 \<le> a then a mod 60 else - ((- a) mod 60))"
| "rem_60 NaN = NaN"
| "rem_60 (Infinity s) = NaN"

text \<open>
  A property read yields a number or \<^verbatim>\<open>undefined\<close> (\<open>None\<close>). \<^verbatim>\<open>!v\<close> is true for
  \<^verbatim>\<open>undefined\<close>, \<^verbatim>\<open>0\<close> and \<^verbatim>\<open>NaN\<close>; arithmetic converts \<^verbatim>\<open>undefined\<close> to \<^verbatim>\<open>NaN\<close>.
\<close>

fun js_not :: "jsnum option \<Rightarrow> bool" where
  "js_not None = True"
| "js_not (Some NaN) = True"
| "js_not (Some (Num a)) = (a = 0)"
| "js_not (Some (Infinity s)) = False"

fun ToNumber :: "jsnum option \<Rightarrow> jsnum" where
  "ToNumber None = NaN"
| "ToNumber (Some v) = v"

subsection \<open>Number to string\<close>

definition digit_char :: "nat \<Rightarrow> char" where
  "digit_char d = ''0123456789'' ! d"

definition is_digit :: "char \<Rightarrow> bool" where
  "is_digit c = (c \<in> set ''0123456789'')"

definition digit_val :: "char \<Rightarrow> nat" where
  "digit_val c = of_char c - 48"

function decimal_nat :: "nat \<Rightarrow> string" where
  "decimal_nat n =
     (if n < 10 then [digit_char n] else decimal_nat (n div 10) @ [digit_char (n mod 10)])"
  by pat_completeness auto
termination
  by (relation "measure id") auto

declare decimal_nat.simps [simp del]

definition decimal_int :: "int \<Rightarrow> string" where
  "decimal_int i = (if i < 0 then CHR ''-'' # decimal_nat (nat (- i)) else decimal_nat (nat i))"

text \<open>
  The text React puts into the page for a number is \<^verbatim>\<open>Number::toString\<close>. For a
  positive number \<open>x\<close> it takes the least \<open>k\<close> for which there are \<open>s\<close> with \<open>k\<close>
  decimal digits and \<open>n\<close> such that \<open>s * 10\<^bsup>n - k\<^esup>\<close> has the Number value \<open>x\<close>, and
  among several such \<open>s\<close> the one nearest to \<open>x\<close>, the even one of two equally near.
  Here \<open>x\<close> is an integer with \<open>decimal_digits x\<close> digits, so \<open>n\<close> is that number or
  one more, \<open>e = n - k\<close> is not negative, and the nearest candidates are the two multiples
  of \<open>10\<^sup>e\<close> around \<open>x\<close>. A double is found with 17 digits at most.
\<close>

function decimal_digits :: "int \<Rightarrow> nat" where
  "decimal_digits n = (if n < 10 then 1 else Suc (decimal_digits (n div 10)))"
  by pat_completeness auto
termination
  by (relation "measure nat") auto

declare decimal_digits.simps [simp del]

definition represents :: "int \<Rightarrow> nat \<Rightarrow> nat \<Rightarrow> int \<Rightarrow> bool" where
  "represents x k e s = (10 ^ (k - 1) \<le> s \<and> s < 10 ^ k \<and> Number_of (s * 10 ^ e) = Num x)"

definition candidates :: "int \<Rightarrow> nat \<Rightarrow> nat \<Rightarrow> (int \<times> nat) list" where
  "candidates x k e =
     (let f = x div 10 ^ e; c = f + 1
      in if represents x k e f \<and> represents x k e c
         then (if x - f * 10 ^ e < c * 10 ^ e - x \<or> (x - f * 10 ^ e = c * 10 ^ e - x \<and> even f)
               then [(f, e)] else [(c, e)])
         else map (\<lambda>s. (s, e)) (filter (represents x k e) [f, c]))"

definition shortest :: "int \<Rightarrow> int \<times> nat" where
  "shortest x =
     (let n = decimal_digits x
      in case concat (map (\<lambda>k. candidates x k (n - k) @ candidates x k (n + 1 - k)) [1..<18]) of
           [] \<Rightarrow> (x, 0)
         | c # cs \<Rightarrow> c)"

text \<open>
  The digits \<open>s\<close> are followed by \<open>e\<close> zeros when that makes 21 digits at most;
  a longer number is written with an exponent, as in \<^verbatim>\<open>1e+21\<close> and \<^verbatim>\<open>1.5e+22\<close>.
\<close>

definition number_text :: "int \<times> nat \<Rightarrow> string" where
  "number_text c =
     (let ds = decimal_nat (nat (fst c)); e = snd c; n = length ds + e
      in if n \<le> 21 then ds @ replicate e CHR ''0''
         else (if length ds = 1 then ds else hd ds # CHR ''.'' # tl ds)
              @ ''e+'' @ decimal_nat (n - 1))"

fun ToString :: "jsnum \<Rightarrow> string" where
  "ToString (Num a) =
     (if a = 0 then ''0''
      else (if a < 0 then ''-'' else []) @ number_text (shortest \<bar>a\<bar>))"
| "ToString NaN = ''NaN''"
| "ToString (Infinity s) = (if s then ''-Infinity'' else ''Infinity'')"

declare ToString.simps(1) [simp del]

definition nat_of_digits :: "string \<Rightarrow> nat" where
  "nat_of_digits ds = foldl (\<lambda>acc c. 10 * acc + digit_val c) 0 ds"

subsection \<open>String to number\<close>

text \<open>
  The text of an input is a JavaScript string, a sequence of UTF-16 code units;
  \<open>units\<close> gives the code units of a text written in ASCII.
\<close>

type_synonym jsstring = "nat list"

definition units :: "string \<Rightarrow> jsstring" where
  "units s = map of_char s"

text \<open>White space and line terminators, which \<^verbatim>\<open>parseInt\<close> skips at the start.\<close>

definition is_space :: "nat \<Rightarrow> bool" where
  "is_space c =
     (c \<in> set [0x09, 0x0A, 0x0B, 0x0C, 0x0D, 0x20, 0xA0, 0x1680, 0x2000, 0x2001, 0x2002,
               0x2003, 0x2004, 0x2005, 0x2006, 0x2007, 0x2008, 0x2009, 0x200A, 0x2028,
               0x2029, 0x202F, 0x205F, 0x3000, 0xFEFF])"

definition is_digit_unit :: "nat \<Rightarrow> bool" where
  "is_digit_unit c = (48 \<le> c \<and> c \<le> 57)"

definition digits_value :: "jsstring \<Rightarrow> nat" where
  "digits_value ds = foldl (\<lambda>acc c. 10 * acc + (c - 48)) 0 ds"

text \<open>
  \<^verbatim>\<open>parseInt(s, 10)\<close>: leading white space is skipped, one sign is read, then the longest
  run of decimal digits; what follows is ignored. With no digit the result is \<^verbatim>\<open>NaN\<close>,
  otherwise the Number value for the integer the digits denote. (The language lets an
  implementation read the digits after the twentieth as zeros; the engines in use read
  them all, as is done here.)
\<close>

definition parseInt :: "jsstring \<Rightarrow> jsnum" where
  "parseInt s =
     (let t = dropWhile is_space s;
          neg = (t \<noteq> [] \<and> hd t = 0x2D);
          u = (if t \<noteq> [] \<and> (hd t = 0x2D \<or> hd t = 0x2B) then tl t else t);
          ds = takeWhile is_digit_unit u
      in if ds = [] then NaN
         else Number_of (if neg then - int (digits_value ds) else int (digits_value ds)))"

subsection \<open>Property keys\<close>

text \<open>
  An own property key is an array index when it is the canonical decimal string of an
  integer from \<open>0\<close> to \<open>2\<^sup>3\<^sup>2 - 2\<close>.
\<close>

definition is_array_index :: "string \<Rightarrow> bool" where
  "is_array_index s =
     (s \<noteq> [] \<and> list_all is_digit s \<and> decimal_nat (nat_of_digits s) = s
      \<and> int (nat_of_digits s) < 2 ^ 32 - 1)"

subsection \<open>Plain objects used as dictionaries\<close>

text \<open>
  \<^verbatim>\<open>totalsByMonth\<close> and \<^verbatim>\<open>totalsByYear\<close> start as \<^verbatim>\<open>{}\<close> and only receive number-valued
  own properties. An object is the list of its own properties in creation order.
  (The keys the code builds are decimal numbers and \<open>year-month\<close> strings, none of which
  names a property inherited from \<^verbatim>\<open>Object.prototype\<close>.)
\<close>

type_synonym obj = "(string \<times> jsnum) list"

definition obj_get :: "obj \<Rightarrow> string \<Rightarrow> jsnum option" where
  "obj_get ob k = map_of ob k"

fun obj_set :: "obj \<Rightarrow> string \<Rightarrow> jsnum \<Rightarrow> obj" where
  "obj_set [] k v = [(k, v)]"
| "obj_set ((k', v') # ob) k v = (if k' = k then (k', v) # ob else (k', v') # obj_set ob k v)"

text \<open>
  \<^verbatim>\<open>Object.keys\<close>: array-index keys first, in ascending numeric order, then the other
  string keys in the order in which the properties were created.
\<close>

definition Object_keys :: "obj \<Rightarrow> string list" where
  "Object_keys ob =
     sort_key nat_of_digits (filter is_array_index (map fst ob))
     @ filter (\<lambda>k. \<not> is_array_index k) (map fst ob)"

section \<open>Entries\<close>

text \<open>
  A \<^verbatim>\<open>Date\<close> is read by the code only through \<^verbatim>\<open>getFullYear()\<close> and \<^verbatim>\<open>getMonth()\<close>
  (local time, months counted from 0); \<open>instant\<close> is the rest of the time value. The
  year of a date lies between \<open>-271821\<close> and \<open>275760\<close>: it and the month are small
  integers.
\<close>

record date =
  getFullYear :: int
  getMonth :: nat
  instant :: nat

text \<open>
  The form builds entries without \<^verbatim>\<open>id\<close>; the object store adds it. Keys are the
  positive integers handed out by the store's key generator.
\<close>

record entry =
  id' :: "nat option"
  hours :: jsnum
  minutes :: jsnum
  createdAt :: date

section \<open>Aggregation (\<^verbatim>\<open>getTotalTimeByMonth\<close>, \<^verbatim>\<open>getTotalTimeByYear\<close>)\<close>

text \<open>
  \<^verbatim>\<open>`${date.getFullYear()}-${date.getMonth() + 1}`\<close> and, as a property name,
  \<^verbatim>\<open>date.getFullYear()\<close>: small integers, printed with their decimal digits.
\<close>

definition monthKey :: "entry \<Rightarrow> string" where
  "monthKey e =
     decimal_int (getFullYear (createdAt e)) @ ''-''
     @ decimal_int (int (getMonth (createdAt e)) + 1)"

definition yearKey :: "entry \<Rightarrow> string" where
  "yearKey e = decimal_int (getFullYear (createdAt e))"

text \<open>
  The body of both \<^verbatim>\<open>forEach\<close> callbacks, for the key \<open>k\<close> of the entry:
  \<^verbatim>\<open>if (!totals[k]) { totals[k] = 0; }  totals[k] += entry.hours * 60 + entry.minutes;\<close>
\<close>

definition entry_minutes :: "entry \<Rightarrow> jsnum" where
  "entry_minutes e = js_add (js_mul (hours e) (Num 60)) (minutes e)"

definition add_to_bucket :: "string \<Rightarrow> entry \<Rightarrow> obj \<Rightarrow> obj" where
  "add_to_bucket k e totals =
     (let totals1 = (if js_not (obj_get totals k) then obj_set totals k (Num 0) else totals)
      in obj_set totals1 k (js_add (ToNumber (obj_get totals1 k)) (entry_minutes e)))"

definition totalsByMonth :: "entry list \<Rightarrow> obj" where
  "totalsByMonth entries = fold (\<lambda>e. add_to_bucket (monthKey e) e) entries []"

definition totalsByYear :: "entry list \<Rightarrow> obj" where
  "totalsByYear entries = fold (\<lambda>e. add_to_bucket (yearKey e) e) entries []"

text \<open>
  One rendered list item: its React key and its text
  \<^verbatim>\<open>{key}: {totalHours}:{minutesLeft}\<close>, with the two numbers kept as well.
\<close>

record li =
  li_key :: string
  totalHours :: jsnum
  minutesLeft :: jsnum
  li_text :: string

definition render_total :: "obj \<Rightarrow> string \<Rightarrow> li" where
  "render_total totals k =
     (let totalMinutes = ToNumber (obj_get totals k);
          th = floor_div_60 totalMinutes;
          ml = rem_60 totalMinutes
      in \<lparr>li_key = k, totalHours = th, minutesLeft = ml,
          li_text = k @ '': '' @ ToString th @ '':'' @ ToString ml\<rparr>)"

definition getTotalTimeByMonth :: "entry list \<Rightarrow> li list" where
  "getTotalTimeByMonth entries =
     (let totals = totalsByMonth entries in map (render_total totals) (Object_keys totals))"

definition getTotalTimeByYear :: "entry list \<Rightarrow> li list" where
  "getTotalTimeByYear entries =
     (let totals = totalsByYear entries in map (render_total totals) (Object_keys totals))"

section \<open>Persistence adapter\<close>

text \<open>
  Modelled from the spec: the object store itself (IndexedDB, reached through the
  \<^verbatim>\<open>idb\<close> package) is not part of the repository; \<^verbatim>\<open>addEntry\<close>, \<^verbatim>\<open>getEntries\<close>,
  \<^verbatim>\<open>deleteEntry\<close> and \<^verbatim>\<open>updateEntry\<close> each open the store \<^verbatim>\<open>entries\<close> and forward to
  its \<^verbatim>\<open>add\<close>, \<^verbatim>\<open>getAll\<close>, \<^verbatim>\<open>delete\<close> and \<^verbatim>\<open>put\<close>. The store is created with
  \<^verbatim>\<open>{ keyPath: 'id', autoIncrement: true }\<close>: the key of a record is its \<^verbatim>\<open>id\<close>
  property, a record stored without one gets the next number of the key generator
  (which starts at 1), \<^verbatim>\<open>add\<close> refuses a key that is already present, \<^verbatim>\<open>put\<close>
  overwrites the whole record, \<^verbatim>\<open>delete\<close> of an absent key does nothing, and
  \<^verbatim>\<open>getAll\<close> lists the records in ascending key order. Opening the database is taken to
  succeed.
\<close>

datatype error = ConstraintError

record objectStore =
  records :: "entry list"
  keyGenerator :: nat

text \<open>The store as the upgrade callback of \<^verbatim>\<open>initDB\<close> creates it on first opening.\<close>

definition initDB :: objectStore where
  "initDB = \<lparr>records = [], keyGenerator = 1\<rparr>"

definition has_key :: "nat \<Rightarrow> entry list \<Rightarrow> bool" where
  "has_key k rs = list_ex (\<lambda>r. id' r = Some k) rs"

text \<open>Modelled from the spec: storing a record under key \<open>k\<close>, replacing the one there.\<close>

fun store_record :: "nat \<Rightarrow> entry \<Rightarrow> entry list \<Rightarrow> entry list" where
  "store_record k v [] = [v]"
| "store_record k v (r # rs) =
     (case id' r of
        None \<Rightarrow> r # store_record k v rs
      | Some j \<Rightarrow> if j = k then v # rs else if k < j then v # r # rs
                 else r # store_record k v rs)"

text \<open>Modelled from the spec: \<^verbatim>\<open>put\<close> (replace-by-key, an upsert); it returns the key.\<close>

definition objectStore_put :: "entry \<Rightarrow> objectStore \<Rightarrow> nat \<times> objectStore" where
  "objectStore_put v s =
     (case id' v of
        None \<Rightarrow>
          (let k = keyGenerator s
           in (k, \<lparr>records = store_record k (v\<lparr>id' := Some k\<rparr>) (records s),
                   keyGenerator = k + 1\<rparr>))
      | Some k \<Rightarrow>
          (k, \<lparr>records = store_record k v (records s),
               keyGenerator = max (keyGenerator s) (k + 1)\<rparr>))"

text \<open>Modelled from the spec: \<^verbatim>\<open>add\<close> (create); it fails when the key is taken.\<close>

definition objectStore_add :: "entry \<Rightarrow> objectStore \<Rightarrow> error + nat \<times> objectStore" where
  "objectStore_add v s =
     (case id' v of
        None \<Rightarrow> Inr (objectStore_put v s)
      | Some k \<Rightarrow> if has_key k (records s) then Inl ConstraintError
                 else Inr (objectStore_put v s))"

text \<open>Modelled from the spec: \<^verbatim>\<open>delete\<close> (delete-by-key) and \<^verbatim>\<open>getAll\<close> (list-all).\<close>

definition objectStore_delete :: "nat \<Rightarrow> objectStore \<Rightarrow> objectStore" where
  "objectStore_delete k s = s\<lparr>records := filter (\<lambda>r. id' r \<noteq> Some k) (records s)\<rparr>"

definition objectStore_getAll :: "objectStore \<Rightarrow> entry list" where
  "objectStore_getAll s = records s"

text \<open>Modelled from the spec: the record stored under a key, if any (\<^verbatim>\<open>get\<close>).\<close>

definition objectStore_get :: "nat \<Rightarrow> objectStore \<Rightarrow> entry option" where
  "objectStore_get k s = find (\<lambda>r. id' r = Some k) (records s)"

text \<open>The four adapter functions of \<^verbatim>\<open>App.jsx\<close> (lines 18 to 36).\<close>

definition addEntry :: "entry \<Rightarrow> objectStore \<Rightarrow> error + nat \<times> objectStore" where
  "addEntry entry s = objectStore_add entry s"

definition getEntries :: "objectStore \<Rightarrow> entry list" where
  "getEntries s = objectStore_getAll s"

definition deleteEntry :: "nat \<Rightarrow> objectStore \<Rightarrow> objectStore" where
  "deleteEntry k s = objectStore_delete k s"

definition updateEntry :: "entry \<Rightarrow> objectStore \<Rightarrow> nat \<times> objectStore" where
  "updateEntry entry s = objectStore_put entry s"

text \<open>
  The state every store built by these operations is in: each record carries its key,
  keys ascend strictly, and the key generator is above all of them.
\<close>

definition store_ok :: "objectStore \<Rightarrow> bool" where
  "store_ok s =
     (list_all (\<lambda>r. id' r \<noteq> None) (records s)
      \<and> sorted_wrt (<) (map (\<lambda>r. the (id' r)) (records s))
      \<and> list_all (\<lambda>r. the (id' r) < keyGenerator s) (records s))"

section \<open>Entry form (\<^verbatim>\<open>TimeForm\<close>)\<close>

text \<open>
  The two state variables \<^verbatim>\<open>hours\<close> and \<^verbatim>\<open>minutes\<close> hold the text of the inputs:
  the form is mounted once, while no entry is being edited, so they start empty and
  afterwards hold what the inputs report.
  \<^verbatim>\<open>handleSubmit\<close> reads the clock (\<open>now\<close>), calls \<^verbatim>\<open>onSubmit\<close>, a transformer of
  the state \<open>w\<close> of whoever owns the form, and resets the two variables
  (\<^verbatim>\<open>preventDefault\<close> has no effect on this state). What the browser lets through the
  two inputs is not part of the code: the handler is defined for every text.
\<close>

record TimeForm =
  form_hours :: jsstring
  form_minutes :: jsstring

definition handleSubmit :: "date \<Rightarrow> (entry \<Rightarrow> 'w \<Rightarrow> 'w) \<Rightarrow> TimeForm \<times> 'w \<Rightarrow> TimeForm \<times> 'w" where
  "handleSubmit now onSubmit fw =
     (let entry = \<lparr>id' = None,
                   hours = parseInt (form_hours (fst fw)),
                   minutes = parseInt (form_minutes (fst fw)),
                   createdAt = now\<rparr>;
          w' = onSubmit entry (snd fw)
      in ((fst fw)\<lparr>form_hours := [], form_minutes := []\<rparr>, w'))"

section \<open>Application controller (\<^verbatim>\<open>App\<close>)\<close>

text \<open>
  The controller's state is the cache \<^verbatim>\<open>entries\<close> and the marker \<^verbatim>\<open>editingEntry\<close>
  (\<open>None\<close> for \<^verbatim>\<open>null\<close>); \<open>db\<close> is the object store it talks to. Each handler is run
  to completion, awaited storage calls included; the month and year watch only logs and
  is left out.
\<close>

record app =
  db :: objectStore
  entries :: "entry list"
  editingEntry :: "entry option"

definition loadEntries :: "app \<Rightarrow> app" where
  "loadEntries a = a\<lparr>entries := getEntries (db a)\<rparr>"

text \<open>
  A storage call that rejects ends the handler there: the result is \<open>Inl\<close> and nothing
  after the \<^verbatim>\<open>await\<close> has run.
\<close>

definition handleAddEntry :: "entry \<Rightarrow> app \<Rightarrow> error + app" where
  "handleAddEntry entry a =
     (case editingEntry a of
        Some editing \<Rightarrow>
          (let entry' = entry\<lparr>id' := id' editing\<rparr>;
               a1 = a\<lparr>db := snd (updateEntry entry' (db a))\<rparr>;
               a2 = a1\<lparr>editingEntry := None\<rparr>
           in Inr (loadEntries a2))
      | None \<Rightarrow>
          (case addEntry entry (db a) of
             Inl err \<Rightarrow> Inl err
           | Inr (k, db') \<Rightarrow> Inr (loadEntries (a\<lparr>db := db'\<rparr>))))"

definition handleEditEntry :: "entry \<Rightarrow> app \<Rightarrow> app" where
  "handleEditEntry entry a = a\<lparr>editingEntry := Some entry\<rparr>"

definition handleDeleteEntry :: "nat \<Rightarrow> app \<Rightarrow> app" where
  "handleDeleteEntry k a = loadEntries (a\<lparr>db := deleteEntry k (db a)\<rparr>)"

text \<open>
  The form is mounted with \<^verbatim>\<open>onSubmit={handleAddEntry}\<close>; a rejected handler leaves
  the controller's state as it was.
\<close>

definition onSubmit_App :: "entry \<Rightarrow> app \<Rightarrow> app" where
  "onSubmit_App entry a = (case handleAddEntry entry a of Inl err \<Rightarrow> a | Inr a' \<Rightarrow> a')"

section \<open>Notions used to state the properties\<close>

text \<open>
  The order in which the distinct elements of a list first occur, reading from the
  left.
\<close>

fun first_seen :: "'a list \<Rightarrow> 'a list" where
  "first_seen [] = []"
| "first_seen (x # xs) = x # filter (\<lambda>y. y \<noteq> x) (first_seen xs)"

text \<open>The years whose decimal string is an array index.\<close>

definition array_index_year :: "int \<Rightarrow> bool" where
  "array_index_year y = (0 \<le> y \<and> y < 2 ^ 32 - 1)"

text \<open>
  An entry is integral when both duration fields are integers; \<open>int_minutes\<close> is then
  its duration \<open>hours * 60 + minutes\<close>.
\<close>

definition integral :: "entry \<Rightarrow> bool" where
  "integral e = (case (hours e, minutes e) of (Num h, Num m) \<Rightarrow> True | _ \<Rightarrow> False)"

definition int_minutes :: "entry \<Rightarrow> int" where
  "int_minutes e =
     (case (hours e, minutes e) of (Num h, Num m) \<Rightarrow> h * 60 + m | _ \<Rightarrow> 0)"

text \<open>The entries of a list that fall into the bucket \<open>k\<close>, in order.\<close>

definition bucket :: "(entry \<Rightarrow> string) \<Rightarrow> string \<Rightarrow> entry list \<Rightarrow> entry list" where
  "bucket key k es = filter (\<lambda>e. key e = k) es"

definition bucket_sum :: "(entry \<Rightarrow> string) \<Rightarrow> string \<Rightarrow> entry list \<Rightarrow> int" where
  "bucket_sum key k es = sum_list (map int_minutes (bucket key k es))"

fun bucket_value :: "jsnum option \<Rightarrow> int" where
  "bucket_value (Some (Num t)) = t"
| "bucket_value _ = 0"

text \<open>
  Adding up the entries of a list in order, starting from the running total \<open>acc\<close>,
  is exact when every entry is integral and no value met on the way leaves the safe
  range: the product \<open>hours * 60\<close>, the duration, and the running total after it.
\<close>

fun exact_sum :: "int \<Rightarrow> entry list \<Rightarrow> bool" where
  "exact_sum acc [] = True"
| "exact_sum acc (e # es) =
     (case (hours e, minutes e) of
        (Num h, Num m) \<Rightarrow>
          safe (h * 60) \<and> safe (h * 60 + m) \<and> safe (acc + (h * 60 + m))
          \<and> exact_sum (acc + (h * 60 + m)) es
      | _ \<Rightarrow> False)"

text \<open>
  A bound on every value met when the integral entry is added to a running total,
  whatever the order: \<open>\<bar>hours\<bar> * 60 + \<bar>minutes\<bar>\<close>.
\<close>

definition magnitude :: "entry \<Rightarrow> int" where
  "magnitude e =
     (case (hours e, minutes e) of (Num h, Num m) \<Rightarrow> \<bar>h\<bar> * 60 + \<bar>m\<bar> | _ \<Rightarrow> 0)"

subsection \<open>Sample data\<close>

definition january :: date where
  "january = \<lparr>getFullYear = 2024, getMonth = 0, instant = 7\<rparr>"

definition march :: date where
  "march = \<lparr>getFullYear = 2024, getMonth = 2, instant = 9\<rparr>"

definition december_2023 :: date where
  "december_2023 = \<lparr>getFullYear = 2023, getMonth = 11, instant = 3\<rparr>"

text \<open>
  An entry as the form builds it, an entry whose fields did not parse, and an entry as
  the store returns it.
\<close>

definition logged :: "int \<Rightarrow> int \<Rightarrow> date \<Rightarrow> entry" where
  "logged h m d = \<lparr>id' = None, hours = Num h, minutes = Num m, createdAt = d\<rparr>"

definition unparsed :: "date \<Rightarrow> entry" where
  "unparsed d = \<lparr>id' = None, hours = NaN, minutes = NaN, createdAt = d\<rparr>"

definition stored :: "nat \<Rightarrow> int \<Rightarrow> int \<Rightarrow> date \<Rightarrow> entry" where
  "stored k h m d = \<lparr>id' = Some k, hours = Num h, minutes = Num m, createdAt = d\<rparr>"

definition two_entries :: objectStore where
  "two_entries = \<lparr>records = [stored 1 1 45 january, stored 2 0 30 march], keyGenerator = 3\<rparr>"

definition editing_first :: app where
  "editing_first =
     \<lparr>db = two_entries, entries = records two_entries,
      editingEntry = Some (stored 1 1 45 january)\<rparr>"

definition idle :: app where
  "idle = \<lparr>db = two_entries, entries = records two_entries, editingEntry = None\<rparr>"

section \<open>Doubles with integer values\<close>

lemma bits_upper: "n < 2 ^ k \<Longrightarrow> bits n \<le> k"
proof (induction k arbitrary: n)
  case 0
  then show ?case by (subst bits.simps) simp
next
  case (Suc k)
  show ?case
  proof (cases "n \<le> 0")
    case True
    then show ?thesis by (subst bits.simps) simp
  next
    case False
    with Suc.prems have "n div 2 < 2 ^ k" by simp
    from Suc.IH [OF this] False show ?thesis by (subst bits.simps) simp
  qed
qed

lemma bits_pos: "0 < n \<Longrightarrow> 0 < bits n"
  by (subst bits.simps) simp

lemma nearest_even_one: "nearest_even a 1 = a"
  by (simp add: nearest_even_def)

lemma round53_small: "a < 2 ^ 53 \<Longrightarrow> round53 a = a"
  using bits_upper [of a 53] by (simp add: round53_def nearest_even_one)

lemma Number_of_safe: "safe n \<Longrightarrow> Number_of n = Num n"
proof -
  assume "safe n"
  then have a: "\<bar>n\<bar> < 2 ^ 53" by (simp add: safe_def MAX_SAFE_INTEGER_def)
  have "(2::int) ^ 53 < 2 ^ 1024" by simp
  with a have "\<not> (2::int) ^ 1024 \<le> \<bar>n\<bar>" by linarith
  with round53_small [OF a] show ?thesis
    by (simp add: Number_of_def Let_def)
qed

lemma bits_lower: "0 < n \<Longrightarrow> 2 ^ (bits n - 1) \<le> n"
proof (induction n rule: bits.induct)
  case (1 n)
  show ?case
  proof (cases "n div 2 \<le> 0")
    case True
    with 1 have "n = 1" by linarith
    then show ?thesis by (subst bits.simps, subst bits.simps) simp
  next
    case False
    then have p: "0 < n div 2" by simp
    with 1 have ih: "2 ^ (bits (n div 2) - 1) \<le> n div 2" by simp
    have b: "bits n = Suc (bits (n div 2))" using 1(2) by (subst bits.simps) simp
    from bits_pos [OF p] have "bits n - 1 = Suc (bits (n div 2) - 1)" by (simp add: b)
    then have "(2::int) ^ (bits n - 1) = 2 * 2 ^ (bits (n div 2) - 1)" by simp
    also have "\<dots> \<le> 2 * (n div 2)" using ih by simp
    also have "\<dots> \<le> n" by simp
    finally show ?thesis .
  qed
qed

lemma bits_bound: "n < 2 ^ bits n"
proof (induction n rule: bits.induct)
  case (1 n)
  show ?case
  proof (cases "n \<le> 0")
    case True
    have "(0::int) < 2 ^ bits n" by simp
    with True show ?thesis by linarith
  next
    case False
    with 1 have ih: "n div 2 < 2 ^ bits (n div 2)" by simp
    have b: "bits n = Suc (bits (n div 2))" using False by (subst bits.simps) simp
    have "n < 2 * (n div 2 + 1)" by presburger
    also have "\<dots> \<le> 2 * 2 ^ bits (n div 2)" using ih by simp
    finally show ?thesis by (simp add: b)
  qed
qed

lemma nearest_even_ge: "0 < d \<Longrightarrow> p div d \<le> nearest_even p d"
  by (simp add: nearest_even_def Let_def)

lemma round53_large:
  assumes "2 ^ 53 \<le> a"
  shows "2 ^ 53 \<le> round53 a"
proof -
  define e where "e = bits a - 53"
  have "53 < bits a"
  proof (rule ccontr)
    assume "\<not> 53 < bits a"
    then have "bits a \<le> 53" by simp
    then have "(2::int) ^ bits a \<le> 2 ^ 53" by (intro power_increasing) simp_all
    with bits_bound [of a] assms show False by linarith
  qed
  then have b: "bits a - 1 = 52 + e" and e: "1 \<le> e" by (simp_all add: e_def)
  have pos: "0 < a" using assms by (smt (verit) zero_less_power)
  have "(2::int) ^ (bits a - 1) = 2 ^ 52 * 2 ^ e" by (simp only: b power_add)
  with bits_lower [OF pos] have le: "2 ^ 52 * 2 ^ e \<le> a" by simp
  have "(2 ^ 52 * 2 ^ e) div 2 ^ e \<le> a div 2 ^ e"
    using le by (rule zdiv_mono1) simp
  then have "2 ^ 52 \<le> a div 2 ^ e" by simp
  also have "\<dots> \<le> nearest_even a (2 ^ e)" by (rule nearest_even_ge) simp
  finally have m: "2 ^ 52 \<le> nearest_even a (2 ^ e)" .
  have "(2::int) ^ 1 \<le> 2 ^ e" using e by (intro power_increasing) simp_all
  then have p: "(2::int) \<le> 2 ^ e" by simp
  have "(2::int) ^ 52 * 2 \<le> nearest_even a (2 ^ e) * 2 ^ e"
    using m p by (intro mult_mono) simp_all
  then show ?thesis by (simp add: round53_def e_def Let_def)
qed

lemma Number_of_eq_safe:
  assumes "0 \<le> y" and "safe x" and "Number_of y = Num x"
  shows "y = x"
proof (cases "y < 2 ^ 53")
  case True
  with assms(1) have "safe y" by (simp add: safe_def MAX_SAFE_INTEGER_def)
  with assms(3) show ?thesis by (simp add: Number_of_safe)
next
  case False
  then have "2 ^ 53 \<le> round53 y" by (intro round53_large) simp
  moreover have "x < 2 ^ 53" using assms(2) by (simp add: safe_def MAX_SAFE_INTEGER_def)
  ultimately show ?thesis
    using assms(1,3) by (simp add: Number_of_def Let_def split: if_splits)
qed

lemma nearest_even_scaled:
  assumes P: "32 \<le> P" and r: "0 \<le> \<rho>" "\<rho> < 60" and q: "0 \<le> q"
  shows "q * P \<le> nearest_even ((60 * q + \<rho>) * P) 60"
    and "nearest_even ((60 * q + \<rho>) * P) 60 < (q + 1) * P"
    and "0 < \<rho> \<Longrightarrow> q * P < nearest_even ((60 * q + \<rho>) * P) 60"
    and "\<rho> = 0 \<Longrightarrow> nearest_even ((60 * q + \<rho>) * P) 60 = q * P"
proof -
  define w where "w = \<rho> * P"
  define u where "u = w div 60"
  define v where "v = w mod 60"
  have w0: "0 \<le> w" using r P by (simp add: w_def)
  have w1: "w \<le> 59 * P" using r P unfolding w_def by (intro mult_right_mono) auto
  have w2: "P \<le> w" if "0 < \<rho>"
  proof -
    have "1 * P \<le> \<rho> * P" using that P by (intro mult_right_mono) auto
    then show ?thesis by (simp add: w_def)
  qed
  have split: "w = 60 * u + v" "0 \<le> v" "v < 60"
    by (simp_all add: u_def v_def)
  have e: "(60 * q + \<rho>) * P = (q * P) * 60 + w"
    by (simp add: w_def algebra_simps)
  have d: "((60 * q + \<rho>) * P) div 60 = q * P + u"
    unfolding e u_def by simp
  have m: "((60 * q + \<rho>) * P) mod 60 = v"
    unfolding e v_def by simp
  have u0: "0 \<le> u" using w0 by (simp add: u_def pos_imp_zdiv_nonneg_iff)
  show "q * P \<le> nearest_even ((60 * q + \<rho>) * P) 60"
    using u0 by (simp add: nearest_even_def Let_def d m)
  have lt: "q * P + u + 1 < q * P + P" if "30 \<le> v"
    using split w1 P that by linarith
  have lt': "q * P + u < q * P + P"
    using split w1 P by linarith
  show "nearest_even ((60 * q + \<rho>) * P) 60 < (q + 1) * P"
    unfolding nearest_even_def Let_def d m using lt lt'
    by (simp add: distrib_right)
  show "q * P < nearest_even ((60 * q + \<rho>) * P) 60" if "0 < \<rho>"
  proof (cases "u = 0")
    case True
    with split w2 [OF that] P have "60 < 2 * v" by linarith
    with True show ?thesis
      unfolding nearest_even_def Let_def d m by simp
  next
    case False
    with u0 have "0 < u" by simp
    then show ?thesis
      unfolding nearest_even_def Let_def d m by simp
  qed
  show "nearest_even ((60 * q + \<rho>) * P) 60 = q * P" if "\<rho> = 0"
    using that by (simp add: nearest_even_def Let_def)
qed

lemma div_between:
  assumes "0 < P" and "k * P \<le> x" and "x < (k + 1) * P"
  shows "x div P = (k::int)"
proof -
  have r: "0 \<le> x - k * P" "x - k * P < P"
    using assms by (simp_all add: distrib_right)
  have "x div P = ((x - k * P) + k * P) div P" by simp
  also have "\<dots> = k + (x - k * P) div P"
    using assms(1) by (subst div_mult_self1) simp_all
  also have "(x - k * P) div P = 0"
    using r by (rule div_pos_pos_trivial)
  finally show ?thesis by simp
qed

lemma quotient_60_safe:
  assumes "60 \<le> A" and "A < 2 ^ 53"
  shows "\<exists>P M. quotient_60 A = (M, 53 - bits (A div 60)) \<and> P = 2 ^ (53 - bits (A div 60))
           \<and> 32 \<le> P \<and> (A div 60) * P \<le> M \<and> M < (A div 60 + 1) * P
           \<and> (A mod 60 = 0 \<longrightarrow> M = (A div 60) * P)
           \<and> (0 < A mod 60 \<longrightarrow> (A div 60) * P < M)"
proof -
  define q where "q = A div 60"
  define \<rho> where "\<rho> = A mod 60"
  define b where "b = bits q"
  define P :: int where "P = 2 ^ (53 - b)"
  have A: "A = 60 * q + \<rho>" "0 \<le> \<rho>" "\<rho> < 60"
    by (simp_all add: q_def \<rho>_def)
  have q0: "0 \<le> q" using assms(1) by (simp add: q_def pos_imp_zdiv_nonneg_iff)
  have "q < 2 ^ 48"
  proof -
    have "60 * q \<le> A" using A by simp
    moreover have "(2::int) ^ 53 < 60 * 2 ^ 48" by simp
    ultimately show ?thesis using assms(2) by linarith
  qed
  then have b: "b \<le> 48" unfolding b_def by (rule bits_upper)
  then have "(2::int) ^ 5 \<le> 2 ^ (53 - b)"
    by (intro power_increasing) auto
  then have P: "32 \<le> P" by (simp add: P_def)
  have Q: "quotient_60 A = (nearest_even (A * P) 60, 53 - b)"
    using b by (simp add: quotient_60_def Let_def q_def [symmetric] b_def [symmetric] P_def)
  let ?M = "nearest_even ((60 * q + \<rho>) * P) 60"
  have "q * P \<le> ?M" "?M < (q + 1) * P" "0 < \<rho> \<Longrightarrow> q * P < ?M" "\<rho> = 0 \<Longrightarrow> ?M = q * P"
    using nearest_even_scaled [OF P A(2,3) q0] by blast+
  then show ?thesis
    using Q P unfolding A(1) [symmetric] q_def [symmetric] \<rho>_def [symmetric] b_def [symmetric] P_def [symmetric]
    by blast
qed

lemma floor_div_60_safe:
  assumes "safe a"
  shows "floor_div_60 (Num a) = Num (a div 60)"
proof (cases "\<bar>a\<bar> < 60")
  case True
  then show ?thesis
    by (auto simp: floor_div_60.simps div_pos_pos_trivial div_pos_neg_trivial)
next
  case False
  define A where "A = \<bar>a\<bar>"
  have A: "60 \<le> A" "A < 2 ^ 53"
    using False assms by (simp_all add: A_def safe_def MAX_SAFE_INTEGER_def)
  from quotient_60_safe [OF A] obtain P M where
    Q: "quotient_60 A = (M, 53 - bits (A div 60))" and Pd: "P = 2 ^ (53 - bits (A div 60))"
    and P: "32 \<le> P" and lo: "(A div 60) * P \<le> M" and hi: "M < (A div 60 + 1) * P"
    and z: "A mod 60 = 0 \<longrightarrow> M = (A div 60) * P" and nz: "0 < A mod 60 \<longrightarrow> (A div 60) * P < M"
    by blast
  have P0: "0 < P" using P by simp
  have F: "floor_div_60 (Num a) = Num ((if a < 0 then - M else M) div P)"
    using False Q by (simp add: floor_div_60.simps A_def [symmetric] Pd)
  show ?thesis
  proof (cases "a < 0")
    case False
    then have "A = a" by (simp add: A_def)
    moreover have "M div P = A div 60" using P0 lo hi by (rule div_between)
    ultimately show ?thesis
      unfolding F using False by simp
  next
    case True
    then have a: "a = - A" by (simp add: A_def)
    have "(- M) div P = a div 60"
    proof (cases "A mod 60 = 0")
      case True
      with z have "M = (A div 60) * P" by simp
      moreover have "a div 60 = - (A div 60)"
        unfolding a using True by (simp add: zdiv_zminus1_eq_if)
      moreover have "(- (A div 60 * P)) div P = - (A div 60)"
        using P0 by (intro div_between) (simp_all add: algebra_simps)
      ultimately show ?thesis by simp
    next
      case False
      then have "0 < A mod 60" by (simp add: less_le)
      with nz have gt: "(A div 60) * P < M" by simp
      have d: "a div 60 = - (A div 60) - 1"
        unfolding a using False by (simp add: zdiv_zminus1_eq_if)
      have "(- M) div P = - (A div 60) - 1"
        using P0 gt hi by (intro div_between) (simp_all add: algebra_simps)
      with d show ?thesis by simp
    qed
    then show ?thesis
      unfolding F using True by simp
  qed
qed

lemma safe_div_60: "safe t \<Longrightarrow> safe (t div 60)"
proof -
  assume "safe t"
  then have t: "\<bar>t\<bar> \<le> MAX_SAFE_INTEGER" by (simp add: safe_def)
  have "t = 60 * (t div 60) + t mod 60" "0 \<le> t mod 60" "t mod 60 < 60"
    by simp_all
  then have "\<bar>t div 60\<bar> \<le> \<bar>t\<bar>" by linarith
  with t show ?thesis by (simp add: safe_def)
qed

lemma safe_mod_60: "safe (t mod 60)"
proof -
  have "0 \<le> t mod 60" "t mod 60 < 60" by simp_all
  then show ?thesis by (simp add: safe_def MAX_SAFE_INTEGER_def)
qed

section \<open>Decimal strings\<close>

lemma digit_cases: "d < 10 \<Longrightarrow> d \<in> {0, 1, 2, 3, 4, 5, 6, 7, 8, 9::nat}"
  by auto

lemma digit_char_props:
  assumes "d < 10"
  shows "is_digit (digit_char d)" and "digit_val (digit_char d) = d"
    and "digit_char d \<noteq> CHR ''-''"
  using digit_cases [OF assms]
  by (auto simp: is_digit_def digit_char_def digit_val_def)

lemma decimal_nat_nonempty: "decimal_nat n \<noteq> []"
  by (subst decimal_nat.simps) simp

lemma decimal_nat_digits: "list_all is_digit (decimal_nat n)"
proof (induction n rule: decimal_nat.induct)
  case (1 n)
  show ?case
    by (subst decimal_nat.simps) (use 1 in \<open>simp add: digit_char_props\<close>)
qed

lemma nat_of_digits_snoc: "nat_of_digits (ds @ [c]) = 10 * nat_of_digits ds + digit_val c"
  by (simp add: nat_of_digits_def)

lemma nat_of_digits_decimal_nat: "nat_of_digits (decimal_nat n) = n"
proof (induction n rule: decimal_nat.induct)
  case (1 n)
  show ?case
  proof (cases "n < 10")
    case True
    then show ?thesis
      by (subst decimal_nat.simps) (simp add: nat_of_digits_def digit_char_props)
  next
    case False
    with 1 show ?thesis
      by (subst decimal_nat.simps) (simp add: nat_of_digits_snoc digit_char_props)
  qed
qed

lemma decimal_nat_inj: "(decimal_nat a = decimal_nat b) = (a = b)"
  by (metis nat_of_digits_decimal_nat)

lemma is_digit_not_minus: "is_digit c \<Longrightarrow> c \<noteq> CHR ''-''"
  by (auto simp: is_digit_def)

lemma decimal_nat_hd: "hd (decimal_nat n) \<noteq> CHR ''-''"
  using decimal_nat_digits [of n] decimal_nat_nonempty [of n]
  by (cases "decimal_nat n") (auto dest: is_digit_not_minus)

lemma decimal_int_inj: "(decimal_int a = decimal_int b) = (a = b)"
proof -
  have neq: "CHR ''-'' # xs \<noteq> decimal_nat n" for xs n
    using decimal_nat_hd [of n] by (cases "decimal_nat n") auto
  show ?thesis
    using neq neq [symmetric]
    by (auto simp: decimal_int_def decimal_nat_inj)
qed

lemma is_array_index_decimal_nat:
  "is_array_index (decimal_nat n) = (int n < 2 ^ 32 - 1)"
  by (simp add: is_array_index_def decimal_nat_nonempty decimal_nat_digits
      nat_of_digits_decimal_nat)

lemma not_array_index_minus: "CHR ''-'' \<in> set s \<Longrightarrow> \<not> is_array_index s"
  by (auto simp: is_array_index_def list_all_iff dest: is_digit_not_minus)

lemma is_array_index_decimal_int:
  "is_array_index (decimal_int i) = (0 \<le> i \<and> i < 2 ^ 32 - 1)"
  by (auto simp: decimal_int_def is_array_index_decimal_nat not_array_index_minus)

lemma nat_of_digits_decimal_int: "0 \<le> i \<Longrightarrow> nat_of_digits (decimal_int i) = nat i"
  by (simp add: decimal_int_def nat_of_digits_decimal_nat)

lemma takeWhile_all: "list_all P xs \<Longrightarrow> takeWhile P xs = xs"
  by (induction xs) auto

lemma is_digit_unit_of_char: "is_digit c \<Longrightarrow> is_digit_unit (of_char c)"
  by (auto simp: is_digit_def is_digit_unit_def)

lemma digits_units: "list_all is_digit s \<Longrightarrow> list_all is_digit_unit (units s)"
  by (simp add: units_def list_all_iff is_digit_unit_of_char)

lemma digits_value_units: "digits_value (units s) = nat_of_digits s"
  by (simp add: digits_value_def nat_of_digits_def units_def foldl_map digit_val_def)

lemma digits_value_snoc: "digits_value (ds @ [c]) = 10 * digits_value ds + (c - 48)"
  by (simp add: digits_value_def)

lemma digits_value_positional:
  "digits_value ds = (\<Sum>i<length ds. (rev ds ! i - 48) * 10 ^ i)"
proof (induction ds rule: rev_induct)
  case Nil
  show ?case by (simp add: digits_value_def)
next
  case (snoc c ds)
  have "(\<Sum>i<Suc (length ds). ((c # rev ds) ! i - 48) * 10 ^ i)
        = (c - 48) + (\<Sum>i<length ds. (rev ds ! i - 48) * 10 ^ Suc i)"
    by (subst sum.lessThan_Suc_shift) simp
  also have "\<dots> = (c - 48) + 10 * (\<Sum>i<length ds. (rev ds ! i - 48) * 10 ^ i)"
    by (simp add: sum_distrib_left mult.assoc mult.left_commute)
  finally show ?case
    using snoc.IH by (simp add: digits_value_snoc)
qed

lemma parseInt_digits:
  assumes "ds \<noteq> []" and "list_all is_digit_unit ds"
  shows "parseInt ds = Number_of (int (digits_value ds))"
proof -
  obtain c cs where s: "ds = c # cs" using assms(1) by (cases ds) auto
  with assms(2) have "is_digit_unit c" by simp
  then have "\<not> is_space c" "c \<noteq> 0x2D" "c \<noteq> 0x2B"
    by (auto simp: is_digit_unit_def is_space_def)
  moreover have "takeWhile is_digit_unit (c # cs) = c # cs"
    using assms(2) s takeWhile_all [of is_digit_unit ds] by simp
  ultimately show ?thesis
    unfolding parseInt_def s by (simp add: Let_def)
qed

lemma parseInt_decimal_nat: "parseInt (units (decimal_nat n)) = Number_of (int n)"
proof -
  have "units (decimal_nat n) \<noteq> []"
    by (simp add: units_def decimal_nat_nonempty)
  then show ?thesis
    using parseInt_digits [of "units (decimal_nat n)"]
    by (simp add: digits_units decimal_nat_digits digits_value_units nat_of_digits_decimal_nat)
qed

lemma parseInt_decimal_int: "parseInt (units (decimal_int i)) = Number_of i"
proof (cases "i < 0")
  case False
  then show ?thesis
    using parseInt_decimal_nat [of "nat i"] by (simp add: decimal_int_def)
next
  case True
  let ?ds = "units (decimal_nat (nat (- i)))"
  have d: "takeWhile is_digit_unit ?ds = ?ds"
    using digits_units [OF decimal_nat_digits] by (rule takeWhile_all)
  have ne: "?ds \<noteq> []" by (simp add: units_def decimal_nat_nonempty)
  have u: "units (decimal_int i) = 0x2D # ?ds"
    using True by (simp add: decimal_int_def units_def)
  have "\<not> is_space 0x2D" by (simp add: is_space_def)
  then show ?thesis
    unfolding parseInt_def u using True
    by (simp add: Let_def d ne digits_value_units nat_of_digits_decimal_nat)
qed

lemma minus_notin_decimal_nat: "CHR ''-'' \<notin> set (decimal_nat n)"
  using decimal_nat_digits [of n] by (auto simp: list_all_iff dest: is_digit_not_minus)

lemma inj_decimal_int: "inj decimal_int"
  by (simp add: inj_def decimal_int_inj)

lemma decimal_nat_small [simp]:
  "decimal_nat 3 = ''3''" "decimal_nat 1 = ''1''" "decimal_nat 12 = ''12''"
  "decimal_nat 2 = ''2''" "decimal_nat 15 = ''15''" "decimal_nat 2024 = ''2024''"
  "decimal_nat 2023 = ''2023''" "decimal_nat (Suc 0) = ''1''" "decimal_nat 0 = ''0''"
  by (simp_all add: decimal_nat.simps digit_char_def)

subsection \<open>The text of a number\<close>

lemma decimal_nat_length_lower: "0 < n \<Longrightarrow> 10 ^ (length (decimal_nat n) - 1) \<le> n"
proof (induction n rule: decimal_nat.induct)
  case (1 n)
  show ?case
  proof (cases "n < 10")
    case True
    with 1(2) show ?thesis by (subst decimal_nat.simps) simp
  next
    case False
    then have p: "0 < n div 10" by simp
    with 1 False have ih: "10 ^ (length (decimal_nat (n div 10)) - 1) \<le> n div 10" by simp
    have l: "length (decimal_nat n) - 1 = Suc (length (decimal_nat (n div 10)) - 1)"
      using False decimal_nat_nonempty [of "n div 10"]
      by (subst decimal_nat.simps) (cases "decimal_nat (n div 10)", simp_all)
    have "(10::nat) ^ (length (decimal_nat n) - 1) = 10 * 10 ^ (length (decimal_nat (n div 10)) - 1)"
      by (simp only: l power_Suc)
    also have "\<dots> \<le> 10 * (n div 10)" using ih by simp
    also have "\<dots> \<le> n" by simp
    finally show ?thesis .
  qed
qed

lemma decimal_nat_length_upper: "n < 10 ^ m \<Longrightarrow> 0 < m \<Longrightarrow> length (decimal_nat n) \<le> m"
proof (induction m arbitrary: n)
  case 0
  then show ?case by simp
next
  case (Suc m)
  show ?case
  proof (cases "n < 10")
    case True
    then show ?thesis by (subst decimal_nat.simps) simp
  next
    case False
    from Suc.prems have d: "n div 10 < 10 ^ m" by (simp add: less_mult_imp_div_less mult.commute)
    from False d have "0 < m" by (cases m) simp_all
    from Suc.IH [OF d this] False show ?thesis by (subst decimal_nat.simps) simp
  qed
qed

lemma decimal_nat_zeros:
  "0 < s \<Longrightarrow> decimal_nat (s * 10 ^ e) = decimal_nat s @ replicate e CHR ''0''"
proof (induction e)
  case 0
  then show ?case by simp
next
  case (Suc e)
  have "1 * 10 \<le> s * 10 ^ Suc e" using Suc.prems by (intro mult_le_mono) simp_all
  then have "\<not> s * 10 ^ Suc e < 10" by simp
  then have "decimal_nat (s * 10 ^ Suc e)
             = decimal_nat (s * 10 ^ Suc e div 10) @ [digit_char (s * 10 ^ Suc e mod 10)]"
    by (subst decimal_nat.simps) simp
  also have "s * 10 ^ Suc e div 10 = s * 10 ^ e" by simp
  also have "s * 10 ^ Suc e mod 10 = 0" by simp
  finally show ?case
    using Suc by (simp add: digit_char_def replicate_append_same)
qed

lemma candidates_represent:
  "(s, e') \<in> set (candidates x k e) \<Longrightarrow> e' = e \<and> represents x k e s"
  by (auto simp: candidates_def Let_def split: if_splits)

lemma shortest_safe:
  assumes "0 < x" and "safe x" and "shortest x = (s, e)"
  shows "0 < s \<and> s * 10 ^ e = x"
proof -
  define cs where "cs = concat (map (\<lambda>k. candidates x k (decimal_digits x - k)
                @ candidates x k (decimal_digits x + 1 - k)) [1..<18])"
  have sh: "shortest x = (case cs of [] \<Rightarrow> (x, 0) | c # cs' \<Rightarrow> c)"
    by (simp only: shortest_def Let_def cs_def)
  show ?thesis
  proof (cases cs)
    case Nil
    with assms sh show ?thesis by simp
  next
    case (Cons c cs')
    with assms(3) sh have c: "c = (s, e)" by simp
    have "c \<in> set cs" by (simp add: Cons)
    then obtain k e0 where "(s, e) \<in> set (candidates x k e0)"
      unfolding c cs_def by auto
    then have r: "represents x k e s" by (auto dest: candidates_represent)
    then have "(1::int) \<le> 10 ^ (k - 1)" "10 ^ (k - 1) \<le> s" by (simp_all add: represents_def)
    then have s: "0 < s" by linarith
    then have "0 \<le> s * 10 ^ e" by simp
    from Number_of_eq_safe [OF this assms(2)] r s show ?thesis by (simp add: represents_def)
  qed
qed

lemma number_text_exact:
  assumes "0 < s" and "s * 10 ^ e < 10 ^ 21"
  shows "number_text (s, e) = decimal_nat (nat (s * 10 ^ e))"
proof -
  have n: "nat (s * 10 ^ e) = nat s * 10 ^ e"
    using assms(1) by (simp add: nat_mult_distrib nat_power_eq)
  have z: "decimal_nat (nat s * 10 ^ e) = decimal_nat (nat s) @ replicate e CHR ''0''"
    using assms(1) by (intro decimal_nat_zeros) simp
  have "nat (s * 10 ^ e) < 10 ^ 21" using assms by (simp add: nat_less_iff)
  then have "length (decimal_nat (nat (s * 10 ^ e))) \<le> 21"
    by (intro decimal_nat_length_upper) simp_all
  then have "length (decimal_nat (nat s)) + e \<le> 21" by (simp add: n z)
  then show ?thesis by (simp add: number_text_def Let_def n z)
qed

text \<open>A safe integer is printed with all its decimal digits.\<close>

lemma ToString_safe: "safe a \<Longrightarrow> ToString (Num a) = decimal_int a"
proof -
  assume a: "safe a"
  have pos: "number_text (shortest x) = decimal_nat (nat x)" if "0 < x" "safe x" for x
  proof -
    obtain s e where se: "shortest x = (s, e)" by (cases "shortest x")
    from shortest_safe [OF that se] have s: "0 < s" "s * 10 ^ e = x" by simp_all
    have "x < 10 ^ 21" using that(2) by (simp add: safe_def MAX_SAFE_INTEGER_def)
    with s number_text_exact [of s e] show ?thesis by (simp add: se)
  qed
  consider "a = 0" | "0 < a" | "a < 0" by linarith
  then show ?thesis
  proof cases
    case 1
    then show ?thesis by (simp add: decimal_int_def ToString.simps)
  next
    case 2
    with pos [OF 2 a] show ?thesis by (simp add: decimal_int_def ToString.simps)
  next
    case 3
    then have "0 < \<bar>a\<bar>" "safe \<bar>a\<bar>" using a by (simp_all add: safe_def)
    from pos [OF this] 3 show ?thesis by (simp add: decimal_int_def ToString.simps)
  qed
qed

lemma shortest_examples:
  "shortest 16666666666666665984 = (16666666666666666, 3)"
  "shortest 1000000000000000000000 = (1, 21)"
  "shortest 123456789012345683968 = (12345678901234568, 4)"
  by code_simp+

lemma replicate_examples:
  "replicate 3 CHR ''0'' = ''000''" "replicate 4 CHR ''0'' = ''0000''"
  by code_simp+

lemma ToString_examples:
  "ToString (Num 16666666666666665984) = ''16666666666666666000''"
  "ToString (Num 1000000000000000000000) = ''1e+21''"
  "ToString (Num (- 123456789012345683968)) = ''-123456789012345680000''"
  by (simp_all add: ToString.simps shortest_examples number_text_def Let_def decimal_nat.simps
      digit_char_def replicate_examples)

section \<open>Keys of the buckets\<close>

lemma split_at_last:
  assumes "xs @ c # ys = xs' @ c # ys'" and "c \<notin> set ys" and "c \<notin> set ys'"
  shows "xs = xs' \<and> ys = ys'"
proof -
  have "rev ys @ c # rev xs = rev ys' @ c # rev xs'"
    using assms(1) [THEN arg_cong, of rev] by simp
  moreover have "takeWhile (\<lambda>x. x \<noteq> c) (rev zs @ c # ws) = rev zs" if "c \<notin> set zs" for zs ws
    using that by (simp add: takeWhile_tail) auto
  ultimately have "rev ys = rev ys'"
    using assms(2,3) by metis
  then show ?thesis using assms(1) by simp
qed

lemma monthKey_eq:
  "monthKey e = decimal_int (getFullYear (createdAt e)) @ ''-'' @ decimal_nat (getMonth (createdAt e) + 1)"
  by (simp add: monthKey_def decimal_int_def nat_add_distrib)

lemma monthKey_inj:
  "(monthKey e = monthKey e') =
     (getFullYear (createdAt e) = getFullYear (createdAt e') \<and> getMonth (createdAt e) = getMonth (createdAt e'))"
proof
  assume "monthKey e = monthKey e'"
  then have "decimal_int (getFullYear (createdAt e)) = decimal_int (getFullYear (createdAt e'))
      \<and> decimal_nat (getMonth (createdAt e) + 1) = decimal_nat (getMonth (createdAt e') + 1)"
    unfolding monthKey_eq
    by (intro split_at_last [where c = "CHR ''-''"]) (simp_all add: minus_notin_decimal_nat)
  then show "getFullYear (createdAt e) = getFullYear (createdAt e') \<and> getMonth (createdAt e) = getMonth (createdAt e')"
    by (simp add: decimal_int_inj decimal_nat_inj)
next
  assume "getFullYear (createdAt e) = getFullYear (createdAt e') \<and> getMonth (createdAt e) = getMonth (createdAt e')"
  then show "monthKey e = monthKey e'" by (simp add: monthKey_eq)
qed

lemma yearKey_eq: "yearKey e = decimal_int (getFullYear (createdAt e))"
  by (simp add: yearKey_def)

lemma yearKey_inj:
  "(yearKey e = yearKey e') = (getFullYear (createdAt e) = getFullYear (createdAt e'))"
  by (simp add: yearKey_def decimal_int_inj)

lemma monthKey_minus: "CHR ''-'' \<in> set (monthKey e)"
  by (simp add: monthKey_def)

section \<open>Objects: property order and property values\<close>

lemma set_first_seen: "set (first_seen xs) = set xs"
  by (induction xs) auto

lemma distinct_first_seen: "distinct (first_seen xs)"
  by (induction xs) (auto simp: set_first_seen)

lemma first_seen_map_inj:
  "inj f \<Longrightarrow> first_seen (map f xs) = map f (first_seen xs)"
  by (induction xs) (auto simp: filter_map comp_def inj_eq)

lemma map_fst_obj_set:
  "map fst (obj_set ob k v) = (if k \<in> fst ` set ob then map fst ob else map fst ob @ [k])"
  by (induction ob) force+

lemma obj_get_obj_set: "obj_get (obj_set ob k v) k' = (if k' = k then Some v else obj_get ob k')"
  by (induction ob) (auto simp: obj_get_def)

lemma obj_get_None_iff: "(obj_get ob k = None) = (k \<notin> fst ` set ob)"
  by (simp add: obj_get_def map_of_eq_None_iff)

lemma keys_obj_set: "fst ` set (obj_set ob k v) = insert k (fst ` set ob)"
  using map_fst_obj_set [of ob k v, THEN arg_cong, of set] by (auto split: if_splits)

lemma map_fst_add_to_bucket:
  "map fst (add_to_bucket k e ob) = (if k \<in> fst ` set ob then map fst ob else map fst ob @ [k])"
  by (simp add: add_to_bucket_def Let_def map_fst_obj_set keys_obj_set)

lemma keys_add_to_bucket: "fst ` set (add_to_bucket k e ob) = insert k (fst ` set ob)"
  using map_fst_add_to_bucket [of k e ob, THEN arg_cong, of set] by (auto split: if_splits)

lemma filter_skip_known:
  "x \<in> S \<Longrightarrow> filter (\<lambda>k. k \<noteq> x \<and> k \<notin> S) zs = filter (\<lambda>k. k \<notin> S) zs"
  by (induction zs) auto

lemma keys_fold_add_to_bucket:
  "map fst (fold (\<lambda>e. add_to_bucket (key e) e) es ob)
     = map fst ob @ filter (\<lambda>k. k \<notin> fst ` set ob) (first_seen (map key es))"
proof (induction es arbitrary: ob)
  case Nil
  show ?case by simp
next
  case (Cons e es)
  show ?case
  proof (cases "key e \<in> fst ` set ob")
    case True
    then have "insert (key e) (fst ` set ob) = fst ` set ob" by auto
    with True show ?thesis
      by (simp add: Cons.IH map_fst_add_to_bucket keys_add_to_bucket filter_skip_known)
  next
    case False
    then show ?thesis
      by (simp add: Cons.IH map_fst_add_to_bucket keys_add_to_bucket conj_commute)
  qed
qed

lemma keys_totalsByMonth: "map fst (totalsByMonth es) = first_seen (map monthKey es)"
  by (simp add: totalsByMonth_def keys_fold_add_to_bucket)

lemma keys_totalsByYear: "map fst (totalsByYear es) = first_seen (map yearKey es)"
  by (simp add: totalsByYear_def keys_fold_add_to_bucket)

lemma Object_keys_totalsByMonth: "Object_keys (totalsByMonth es) = first_seen (map monthKey es)"
proof -
  have "\<forall>k \<in> set (first_seen (map monthKey es)). \<not> is_array_index k"
    by (auto simp: set_first_seen monthKey_minus not_array_index_minus)
  then show ?thesis
    by (simp add: Object_keys_def keys_totalsByMonth filter_empty_conv)
qed

lemma li_key_render: "map li_key (map (render_total t) ks) = ks"
  by (induction ks) (simp_all add: render_total_def Let_def)

lemma month_order: "map li_key (getTotalTimeByMonth es) = first_seen (map monthKey es)"
  by (simp add: getTotalTimeByMonth_def Let_def li_key_render Object_keys_totalsByMonth
      del: map_map)

lemma insort_key_map:
  "insort_key f (g x) (map g xs) = map g (insort_key (\<lambda>a. f (g a)) x xs)"
  by (induction xs) auto

lemma sort_key_map: "sort_key f (map g xs) = map g (sort_key (\<lambda>a. f (g a)) xs)"
  by (induction xs) (simp_all add: insort_key_map)

lemma insort_key_nat:
  "0 \<le> x \<Longrightarrow> \<forall>y \<in> set xs. 0 \<le> y \<Longrightarrow>
   insort_key (\<lambda>a. nat_of_digits (decimal_int a)) x xs = insort x xs"
  by (induction xs) (auto simp: nat_of_digits_decimal_int)

lemma sort_key_nat:
  "\<forall>y \<in> set xs. 0 \<le> y \<Longrightarrow> sort_key (\<lambda>a. nat_of_digits (decimal_int a)) xs = sort xs"
  by (induction xs) (simp_all add: insort_key_nat)

lemma sort_first_seen: "sort (filter P (first_seen xs)) = sort (filter P (remdups xs))"
  for xs :: "int list"
proof (rule sorted_distinct_set_unique)
  show "set (sort (filter P (first_seen xs))) = set (sort (filter P (remdups xs)))"
    by (simp add: set_first_seen)
qed (simp_all add: distinct_first_seen)

lemma Object_keys_totalsByYear:
  "Object_keys (totalsByYear es) =
     map decimal_int (sort (filter array_index_year (remdups (map (\<lambda>e. getFullYear (createdAt e)) es))))
     @ map decimal_int (filter (\<lambda>y. \<not> array_index_year y) (first_seen (map (\<lambda>e. getFullYear (createdAt e)) es)))"
proof -
  let ?ys = "map (\<lambda>e. getFullYear (createdAt e)) es"
  have "map yearKey es = map decimal_int ?ys"
    by (simp add: yearKey_eq)
  then have keys: "map fst (totalsByYear es) = map decimal_int (first_seen ?ys)"
    using first_seen_map_inj [OF inj_decimal_int, of ?ys]
    by (simp only: keys_totalsByYear)
  have idx: "is_array_index \<circ> decimal_int = array_index_year"
    by (auto simp: fun_eq_iff is_array_index_decimal_int array_index_year_def)
  have nidx: "(\<lambda>k. \<not> is_array_index k) \<circ> decimal_int = (\<lambda>y. \<not> array_index_year y)"
    by (auto simp: fun_eq_iff is_array_index_decimal_int array_index_year_def)
  have "sort_key (\<lambda>a. nat_of_digits (decimal_int a)) (filter array_index_year (first_seen ?ys))
        = sort (filter array_index_year (first_seen ?ys))"
    by (rule sort_key_nat) (auto simp: array_index_year_def)
  also have "\<dots> = sort (filter array_index_year (remdups ?ys))"
    by (rule sort_first_seen)
  finally show ?thesis
    by (simp add: Object_keys_def keys filter_map idx nidx sort_key_map del: map_map)
qed

lemma year_order:
  "map li_key (getTotalTimeByYear es) =
     map decimal_int (sort (filter array_index_year (remdups (map (\<lambda>e. getFullYear (createdAt e)) es))))
     @ map decimal_int (filter (\<lambda>y. \<not> array_index_year y) (first_seen (map (\<lambda>e. getFullYear (createdAt e)) es)))"
  by (simp add: getTotalTimeByYear_def Let_def li_key_render Object_keys_totalsByYear
      del: map_map)

lemma set_Object_keys: "set (Object_keys ob) = fst ` set ob"
  by (auto simp: Object_keys_def)

section \<open>Totals of a bucket\<close>

lemma obj_get_add_to_bucket:
  "obj_get (add_to_bucket k e ob) k' =
     (if k' = k
      then Some (js_add (if js_not (obj_get ob k) then Num 0 else ToNumber (obj_get ob k))
                        (entry_minutes e))
      else obj_get ob k')"
  by (simp add: add_to_bucket_def Let_def obj_get_obj_set)

lemma entry_minutes_exact:
  assumes "hours e = Num h" and "minutes e = Num m" and "safe (h * 60)" and "safe (h * 60 + m)"
  shows "entry_minutes e = Num (h * 60 + m)" and "int_minutes e = h * 60 + m"
  using assms by (simp_all add: entry_minutes_def int_minutes_def Number_of_safe)

text \<open>A running total that is absent or an integer, as opposed to \<^verbatim>\<open>NaN\<close> or infinite.\<close>

lemma obj_get_add_exact:
  assumes "exact_sum (bucket_value (obj_get ob k)) (e # es)"
    and "obj_get ob k = None \<or> (\<exists>t. obj_get ob k = Some (Num t))"
  shows "obj_get (add_to_bucket k e ob) k = Some (Num (bucket_value (obj_get ob k) + int_minutes e))"
    and "exact_sum (bucket_value (obj_get ob k) + int_minutes e) es"
proof -
  let ?t = "bucket_value (obj_get ob k)"
  from assms(1) obtain h m where hm: "hours e = Num h" "minutes e = Num m"
    and s: "safe (h * 60)" "safe (h * 60 + m)" "safe (?t + (h * 60 + m))"
    and rest: "exact_sum (?t + (h * 60 + m)) es"
    by (cases "hours e"; cases "minutes e") auto
  note em = entry_minutes_exact [OF hm s(1,2)]
  have start: "(if js_not (obj_get ob k) then Num 0 else ToNumber (obj_get ob k)) = Num ?t"
    using assms(2) by auto
  show "obj_get (add_to_bucket k e ob) k = Some (Num (?t + int_minutes e))"
    unfolding obj_get_add_to_bucket start em using s(3) by (simp add: Number_of_safe)
  show "exact_sum (?t + int_minutes e) es"
    using rest by (simp add: em)
qed

lemma fold_totals_exact:
  assumes "exact_sum (bucket_value (obj_get ob k)) (bucket key k es)"
    and "obj_get ob k = None \<or> (\<exists>t. obj_get ob k = Some (Num t))"
  shows "obj_get (fold (\<lambda>e. add_to_bucket (key e) e) es ob) k =
           (if k \<in> key ` set es \<or> obj_get ob k \<noteq> None
            then Some (Num (bucket_value (obj_get ob k) + bucket_sum key k es))
            else None)"
  using assms
proof (induction es arbitrary: ob)
  case Nil
  then show ?case by (auto simp: bucket_sum_def bucket_def)
next
  case (Cons e es)
  let ?ob = "add_to_bucket (key e) e ob"
  show ?case
  proof (cases "key e = k")
    case True
    from Cons.prems(1) True
    have ex: "exact_sum (bucket_value (obj_get ob k)) (e # bucket key k es)"
      by (simp add: bucket_def)
    have v: "obj_get ?ob k = Some (Num (bucket_value (obj_get ob k) + int_minutes e))"
      and r: "exact_sum (bucket_value (obj_get ob k) + int_minutes e) (bucket key k es)"
      using obj_get_add_exact [OF ex Cons.prems(2)] True by simp_all
    have bv: "bucket_value (obj_get ?ob k) = bucket_value (obj_get ob k) + int_minutes e"
      using v by simp
    have "obj_get (fold (\<lambda>e. add_to_bucket (key e) e) es ?ob) k =
           Some (Num (bucket_value (obj_get ob k) + int_minutes e + bucket_sum key k es))"
      using Cons.IH [of ?ob] r v by (simp add: bv)
    then show ?thesis
      using True by (simp add: bucket_sum_def bucket_def add.assoc)
  next
    case False
    then have same: "obj_get ?ob k = obj_get ob k"
      by (simp add: obj_get_add_to_bucket)
    have "obj_get (fold (\<lambda>e. add_to_bucket (key e) e) es ?ob) k =
           (if k \<in> key ` set es \<or> obj_get ob k \<noteq> None
            then Some (Num (bucket_value (obj_get ob k) + bucket_sum key k es))
            else None)"
      using Cons.IH [of ?ob] Cons.prems False by (simp add: same bucket_def)
    then show ?thesis
      using False by (auto simp: bucket_sum_def bucket_def)
  qed
qed

lemma totalsByMonth_value:
  "exact_sum 0 (bucket monthKey k es) \<Longrightarrow>
   obj_get (totalsByMonth es) k =
     (if k \<in> monthKey ` set es then Some (Num (bucket_sum monthKey k es)) else None)"
  using fold_totals_exact [of "[]" k monthKey es]
  by (simp add: totalsByMonth_def obj_get_def)

lemma totalsByYear_value:
  "exact_sum 0 (bucket yearKey k es) \<Longrightarrow>
   obj_get (totalsByYear es) k =
     (if k \<in> yearKey ` set es then Some (Num (bucket_sum yearKey k es)) else None)"
  using fold_totals_exact [of "[]" k yearKey es]
  by (simp add: totalsByYear_def obj_get_def)

lemma magnitude_nonneg: "0 \<le> magnitude e"
  by (simp add: magnitude_def split: jsnum.splits)

lemma sum_magnitude_nonneg: "0 \<le> sum_list (map magnitude es)"
  by (induction es) (simp_all add: magnitude_nonneg)

lemma exact_sum_bound:
  "list_all integral es \<Longrightarrow> \<bar>acc\<bar> + sum_list (map magnitude es) \<le> MAX_SAFE_INTEGER \<Longrightarrow>
   exact_sum acc es"
proof (induction es arbitrary: acc)
  case Nil
  show ?case by simp
next
  case (Cons e es)
  from Cons.prems(1) obtain h m where hm: "hours e = Num h" "minutes e = Num m"
    by (auto simp: integral_def split: jsnum.splits)
  have mag: "magnitude e = \<bar>h\<bar> * 60 + \<bar>m\<bar>"
    by (simp add: magnitude_def hm)
  have h60: "\<bar>h * 60\<bar> = \<bar>h\<bar> * 60"
    by (simp add: abs_mult)
  note rest = sum_magnitude_nonneg [of es]
  from Cons.prems(2) have b: "\<bar>acc\<bar> + (\<bar>h\<bar> * 60 + \<bar>m\<bar>) + sum_list (map magnitude es) \<le> MAX_SAFE_INTEGER"
    by (simp add: mag)
  have s1: "safe (h * 60)"
    unfolding safe_def h60 using b rest by linarith
  have s2: "safe (h * 60 + m)"
    unfolding safe_def using b rest h60 by linarith
  have s3: "safe (acc + (h * 60 + m))"
    unfolding safe_def using b rest h60 by linarith
  have "\<bar>acc + (h * 60 + m)\<bar> + sum_list (map magnitude es) \<le> MAX_SAFE_INTEGER"
    using b h60 by linarith
  with Cons.IH [of "acc + (h * 60 + m)"] Cons.prems(1)
  have "exact_sum (acc + (h * 60 + m)) es" by simp
  with s1 s2 s3 show ?case by (simp add: hm)
qed

lemma bucket_mset: "mset xs = mset ys \<Longrightarrow> mset (bucket key k xs) = mset (bucket key k ys)"
  by (simp add: bucket_def)

lemma exact_sum_any_order:
  assumes "mset xs = mset ys" and "list_all integral xs"
    and "sum_list (map magnitude xs) \<le> MAX_SAFE_INTEGER"
  shows "exact_sum 0 xs" and "exact_sum 0 ys"
proof -
  show "exact_sum 0 xs"
    using assms(2,3) by (intro exact_sum_bound) simp_all
  have "set xs = set ys" using assms(1) by (rule mset_eq_setD)
  then have i: "list_all integral ys" using assms(2) by (simp add: list_all_iff)
  have "sum_list (map magnitude ys) = sum_mset (image_mset magnitude (mset ys))"
    by (simp add: sum_mset_sum_list [symmetric] del: sum_mset_sum_list)
  also have "\<dots> = sum_list (map magnitude xs)"
    by (simp add: assms(1) [symmetric] sum_mset_sum_list [symmetric] del: sum_mset_sum_list)
  finally show "exact_sum 0 ys"
    using i assms(3) by (intro exact_sum_bound) simp_all
qed

lemma bucket_sum_mset: "mset xs = mset ys \<Longrightarrow> bucket_sum key k xs = bucket_sum key k ys"
proof -
  assume eq: "mset xs = mset ys"
  have "bucket_sum key k zs
        = sum_mset (image_mset int_minutes (filter_mset (\<lambda>e. key e = k) (mset zs)))" for zs
    by (simp add: bucket_sum_def bucket_def sum_mset_sum_list [symmetric] del: sum_mset_sum_list)
  then show ?thesis by (simp add: eq)
qed

lemma render_total_cong: "obj_get t k = obj_get t' k \<Longrightarrow> render_total t k = render_total t' k"
  by (simp add: render_total_def)

lemma set_getTotalTimeByMonth:
  "set (getTotalTimeByMonth es) = render_total (totalsByMonth es) ` monthKey ` set es"
  by (simp add: getTotalTimeByMonth_def Let_def Object_keys_totalsByMonth set_first_seen)

lemma set_getTotalTimeByYear:
  "set (getTotalTimeByYear es) = render_total (totalsByYear es) ` yearKey ` set es"
proof -
  have "fst ` set (totalsByYear es) = yearKey ` set es"
    using keys_totalsByYear [of es, THEN arg_cong, of set] by (simp add: set_first_seen)
  then show ?thesis
    by (simp add: getTotalTimeByYear_def Let_def set_Object_keys)
qed

section \<open>The object store\<close>

lemma find_store_record_same:
  "id' v = Some k \<Longrightarrow> find (\<lambda>r. id' r = Some k) (store_record k v rs) = Some v"
  by (induction rs) (auto split: option.splits)

lemma find_store_record_other:
  "id' v = Some k \<Longrightarrow> j \<noteq> k \<Longrightarrow>
   find (\<lambda>r. id' r = Some j) (store_record k v rs) = find (\<lambda>r. id' r = Some j) rs"
  by (induction rs) (auto split: option.splits)

lemma set_store_record: "set (store_record k v rs) \<subseteq> insert v (set rs)"
  by (induction rs) (auto split: option.splits)

lemma in_store_record: "v \<in> set (store_record k v rs)"
  by (induction rs) (auto split: option.splits)

lemma objectStore_get_put:
  "objectStore_get j (snd (objectStore_put v s)) =
     (if j = fst (objectStore_put v s) then Some (v\<lparr>id' := Some j\<rparr>) else objectStore_get j s)"
  by (cases "id' v")
     (auto simp: objectStore_get_def objectStore_put_def Let_def find_store_record_same
       find_store_record_other)

lemma fst_objectStore_put:
  "fst (objectStore_put v s) = (case id' v of None \<Rightarrow> keyGenerator s | Some k \<Rightarrow> k)"
  by (simp add: objectStore_put_def Let_def split: option.splits)

lemma find_filter_same: "find (\<lambda>r. id' r = Some k) (filter (\<lambda>r. id' r \<noteq> Some k) rs) = None"
  by (induction rs) auto

lemma find_filter_other:
  "j \<noteq> k \<Longrightarrow> find (\<lambda>r. id' r = Some j) (filter (\<lambda>r. id' r \<noteq> Some k) rs)
     = find (\<lambda>r. id' r = Some j) rs"
  by (induction rs) auto

lemma objectStore_get_delete:
  "objectStore_get j (objectStore_delete k s) = (if j = k then None else objectStore_get j s)"
  by (simp add: objectStore_get_def objectStore_delete_def find_filter_same find_filter_other)

lemma delete_absent: "\<not> has_key k (records s) \<Longrightarrow> objectStore_delete k s = s"
proof -
  assume "\<not> has_key k (records s)"
  then have "filter (\<lambda>r. id' r \<noteq> Some k) (records s) = records s"
    by (simp add: has_key_def list_ex_iff filter_id_conv)
  then show ?thesis by (simp add: objectStore_delete_def)
qed

lemma sorted_keys_one:
  "sorted_wrt (<) (map (\<lambda>r. the (id' r)) rs) \<Longrightarrow> list_all (\<lambda>r. id' r \<noteq> None) rs \<Longrightarrow>
   has_key k rs \<Longrightarrow> length (filter (\<lambda>r. id' r \<noteq> Some k) rs) + 1 = length rs"
proof (induction rs)
  case Nil
  then show ?case by (simp add: has_key_def)
next
  case (Cons r rs)
  show ?case
  proof (cases "id' r = Some k")
    case True
    with Cons.prems have "\<forall>x \<in> set rs. id' x \<noteq> Some k"
      by (auto simp: list_all_iff)
    then have "filter (\<lambda>r. id' r \<noteq> Some k) rs = rs"
      by (simp add: filter_id_conv)
    with True show ?thesis by simp
  next
    case False
    with Cons show ?thesis by (simp add: has_key_def)
  qed
qed

lemma store_ok_delete: "store_ok s \<Longrightarrow> store_ok (objectStore_delete k s)"
  by (auto simp: store_ok_def objectStore_delete_def list_all_iff sorted_wrt_filter sorted_wrt_map)

lemma store_record_ok:
  assumes "id' v = Some k"
    and "list_all (\<lambda>r. id' r \<noteq> None) rs"
    and "sorted_wrt (<) (map (\<lambda>r. the (id' r)) rs)"
  shows "sorted_wrt (<) (map (\<lambda>r. the (id' r)) (store_record k v rs))"
  using assms(2,3)
proof (induction rs)
  case Nil
  show ?case by simp
next
  case (Cons r rs)
  from Cons.prems obtain j where j: "id' r = Some j" by auto
  have "\<forall>x \<in> set (store_record k v rs). the (id' x) = k \<or> x \<in> set rs"
    using set_store_record [of k v rs] assms(1) by auto
  with Cons j assms(1) show ?case
    by (auto simp: less_imp_le_nat)
qed

lemma store_ok_put: "store_ok s \<Longrightarrow> store_ok (snd (objectStore_put v s))"
proof -
  assume ok: "store_ok s"
  have all: "list_all P (store_record k w rs)" if "P w" "list_all P rs" for P k w rs
    using that set_store_record [of k w rs] by (auto simp: list_all_iff)
  show ?thesis
  proof (cases "id' v")
    case None
    with ok show ?thesis
      by (auto simp: store_ok_def objectStore_put_def Let_def intro!: all store_record_ok
          elim: list.pred_mono_strong)
  next
    case (Some k)
    with ok show ?thesis
      by (auto simp: store_ok_def objectStore_put_def Let_def intro!: all store_record_ok
          elim: list.pred_mono_strong)
  qed
qed

lemma store_ok_init: "store_ok initDB"
  by (simp add: store_ok_def initDB_def)

lemma store_ok_add: "store_ok s \<Longrightarrow> objectStore_add v s = Inr (k, s') \<Longrightarrow> store_ok s'"
  using store_ok_put [of s v]
  by (auto simp: objectStore_add_def split: option.splits if_splits)

lemma store_ok_handleDeleteEntry: "store_ok (db a) \<Longrightarrow> store_ok (db (handleDeleteEntry k a))"
  by (simp add: handleDeleteEntry_def loadEntries_def deleteEntry_def store_ok_delete)

lemma store_ok_handleAddEntry:
  "store_ok (db a) \<Longrightarrow> handleAddEntry entry a = Inr a' \<Longrightarrow> store_ok (db a')"
  using store_ok_put [of "db a"] store_ok_add [of "db a" entry]
  by (auto simp: handleAddEntry_def loadEntries_def Let_def updateEntry_def addEntry_def
      split: option.splits sum.splits)

lemma onSubmit_App_editing:
  "editingEntry a = Some ed \<Longrightarrow>
   onSubmit_App entry a =
     \<lparr>db = snd (updateEntry (entry\<lparr>id' := id' ed\<rparr>) (db a)),
      entries = getEntries (snd (updateEntry (entry\<lparr>id' := id' ed\<rparr>) (db a))),
      editingEntry = None\<rparr>"
  by (cases a) (simp add: onSubmit_App_def handleAddEntry_def loadEntries_def Let_def)

lemma onSubmit_App_fresh:
  "editingEntry a = None \<Longrightarrow> id' entry = None \<Longrightarrow>
   onSubmit_App entry a =
     \<lparr>db = snd (objectStore_put entry (db a)),
      entries = getEntries (snd (objectStore_put entry (db a))),
      editingEntry = None\<rparr>"
  by (cases a; cases "objectStore_put entry (db a)")
     (simp add: onSubmit_App_def handleAddEntry_def loadEntries_def addEntry_def
       objectStore_add_def)

section \<open>Sample data, evaluated\<close>

lemma logged_simps:
  "integral (logged h m d)" "int_minutes (logged h m d) = h * 60 + m"
  "hours (logged h m d) = Num h" "minutes (logged h m d) = Num m"
  "createdAt (logged h m d) = d" "magnitude (logged h m d) = \<bar>h\<bar> * 60 + \<bar>m\<bar>"
  by (simp_all add: logged_def integral_def int_minutes_def magnitude_def)

lemma logged_minutes:
  "safe (h * 60) \<Longrightarrow> safe (h * 60 + m) \<Longrightarrow> entry_minutes (logged h m d) = Num (h * 60 + m)"
  by (simp add: entry_minutes_def logged_simps Number_of_safe)

lemma unparsed_simps:
  "\<not> integral (unparsed d)" "entry_minutes (unparsed d) = NaN" "createdAt (unparsed d) = d"
  "hours (unparsed d) = NaN" "minutes (unparsed d) = NaN"
  by (simp_all add: unparsed_def integral_def entry_minutes_def)

lemma stored_simps: "id' (stored k h m d) = Some k" "createdAt (stored k h m d) = d"
  by (simp_all add: stored_def)

lemma date_examples:
  "getFullYear march = 2024" "getMonth march = 2" "getFullYear january = 2024"
  "getMonth january = 0" "getFullYear december_2023 = 2023" "getMonth december_2023 = 11"
  by (simp_all add: march_def january_def december_2023_def)

lemma monthKey_examples:
  "createdAt e = march \<Longrightarrow> monthKey e = ''2024-3''"
  "createdAt e = january \<Longrightarrow> monthKey e = ''2024-1''"
  "createdAt e = december_2023 \<Longrightarrow> monthKey e = ''2023-12''"
  by (simp_all add: monthKey_eq march_def january_def december_2023_def decimal_int_def)

lemma yearKey_examples:
  "createdAt e = march \<Longrightarrow> yearKey e = ''2024''"
  "createdAt e = january \<Longrightarrow> yearKey e = ''2024''"
  "createdAt e = december_2023 \<Longrightarrow> yearKey e = ''2023''"
  by (simp_all add: yearKey_def march_def january_def december_2023_def decimal_int_def)

lemma parseInt_examples:
  "parseInt (units ''2'') = Num 2" "parseInt (units ''0'') = Num 0"
  "parseInt (units ''1'') = Num 1" "parseInt (units ''75'') = Num 75"
  "parseInt (units ''-5'') = Num (- 5)" "parseInt (units ''1e5'') = Num 1"
  "parseInt (units '' 12px'') = Num 12" "parseInt (units ''abc'') = NaN"
  "parseInt [0xA0, 0x37] = Num 7"
  by (simp_all add: parseInt_def Let_def units_def is_space_def is_digit_unit_def
      digits_value_def Number_of_safe safe_def MAX_SAFE_INTEGER_def)

lemma rounding_examples:
  "Number_of 9007199254740993 = Num 9007199254740992"
  "Number_of 9007199254740994 = Num 9007199254740994"
  "Number_of 9007199254741021 = Num 9007199254741020"
  "Number_of 9007199254741020 = Num 9007199254741020"
  "Number_of 67553994410557440 = Num 67553994410557440"
  "Number_of 67553994410557496 = Num 67553994410557496"
  "floor_div_60 (Num 67553994410557496) = Num 1125899906842625"
  by code_simp+

lemma sample_states:
  "db editing_first = two_entries" "editingEntry editing_first = Some (stored 1 1 45 january)"
  "db idle = two_entries" "editingEntry idle = None"
  by (simp_all add: editing_first_def idle_def)

lemma objectStore_get_two_entries:
  "objectStore_get 1 two_entries = Some (stored 1 1 45 january)"
  "objectStore_get (Suc 0) two_entries = Some (stored 1 1 45 january)"
  "objectStore_get 2 two_entries = Some (stored 2 0 30 march)"
  "objectStore_get 3 two_entries = None"
  "keyGenerator two_entries = 3"
  by (simp_all add: objectStore_get_def two_entries_def stored_simps)

lemma january_march: "january \<noteq> march"
  by (simp add: january_def march_def)

section \<open>The creation timestamp\<close>

text \<open>
  C1. \<^verbatim>\<open>createdAt\<close> is the wall-clock time of the form submission that wrote the record.
  A submission made while no edit is in progress creates a record, under the next key of
  the generator, stamped with the time of that submission. A submission made while the
  entry with id \<open>k\<close> is being edited replaces the record under \<open>k\<close> by one that keeps
  the id and takes hours, minutes and \<^verbatim>\<open>createdAt\<close> from the new submission, so the
  creation timestamp becomes the time of the edit. On both paths the records under all
  other ids, their timestamps included, stay as they were.
\<close>

theorem submission_stamps_createdAt:
  "(editingEntry a = None \<longrightarrow>
      objectStore_get (keyGenerator (db a)) (db (snd (handleSubmit now onSubmit_App (f, a))))
        = Some \<lparr>id' = Some (keyGenerator (db a)), hours = parseInt (form_hours f),
                 minutes = parseInt (form_minutes f), createdAt = now\<rparr>
      \<and> (\<forall>j. j \<noteq> keyGenerator (db a) \<longrightarrow>
            objectStore_get j (db (snd (handleSubmit now onSubmit_App (f, a))))
              = objectStore_get j (db a)))
   \<and> (editingEntry a = Some ed \<and> id' ed = Some k \<longrightarrow>
      objectStore_get k (db (snd (handleSubmit now onSubmit_App (f, a))))
        = Some \<lparr>id' = Some k, hours = parseInt (form_hours f),
                 minutes = parseInt (form_minutes f), createdAt = now\<rparr>
      \<and> (\<forall>j. j \<noteq> k \<longrightarrow>
            objectStore_get j (db (snd (handleSubmit now onSubmit_App (f, a))))
              = objectStore_get j (db a)))"
  by (auto simp: handleSubmit_def Let_def onSubmit_App_editing onSubmit_App_fresh
      updateEntry_def objectStore_get_put fst_objectStore_put)

theorem submission_stamps_createdAt_witness:
  "editingEntry idle = None
   \<and> objectStore_get 3
        (db (snd (handleSubmit march onSubmit_App
          (\<lparr>form_hours = units ''2'', form_minutes = units ''0''\<rparr>, idle))))
       = Some (stored 3 2 0 march)
   \<and> objectStore_get 1
        (db (snd (handleSubmit march onSubmit_App
          (\<lparr>form_hours = units ''2'', form_minutes = units ''0''\<rparr>, idle))))
       = Some (stored 1 1 45 january)
   \<and> editingEntry editing_first = Some (stored 1 1 45 january)
   \<and> id' (stored 1 1 45 january) = Some 1
   \<and> objectStore_get 1
        (db (snd (handleSubmit march onSubmit_App
          (\<lparr>form_hours = units ''2'', form_minutes = units ''0''\<rparr>, editing_first))))
       = Some (stored 1 2 0 march)
   \<and> objectStore_get 2
        (db (snd (handleSubmit march onSubmit_App
          (\<lparr>form_hours = units ''2'', form_minutes = units ''0''\<rparr>, editing_first))))
       = Some (stored 2 0 30 march)"
  using submission_stamps_createdAt
      [of idle march "\<lparr>form_hours = units ''2'', form_minutes = units ''0''\<rparr>"
        "stored 1 1 45 january" 1]
    submission_stamps_createdAt
      [of editing_first march "\<lparr>form_hours = units ''2'', form_minutes = units ''0''\<rparr>"
        "stored 1 1 45 january" 1]
  by (simp add: sample_states objectStore_get_two_entries parseInt_examples stored_def)

text \<open>
  The entry with id 1 was created in January. It is being edited, and the form is
  submitted in March: the record under id 1 then carries the March timestamp.
\<close>

theorem edit_keeps_createdAt_counterexample:
  "map_option createdAt (objectStore_get 1 (db editing_first)) = Some january
   \<and> map_option createdAt
        (objectStore_get 1
          (db (snd (handleSubmit march onSubmit_App
            (\<lparr>form_hours = units ''2'', form_minutes = units ''0''\<rparr>, editing_first)))))
       = Some march
   \<and> january \<noteq> march"
  by (simp add: handleSubmit_def Let_def onSubmit_App_editing sample_states updateEntry_def
      objectStore_get_put fst_objectStore_put objectStore_get_two_entries stored_simps
      january_march)

section \<open>Add or update\<close>

text \<open>
  C2. \<^verbatim>\<open>handleAddEntry\<close>: when an edit is in progress, the incoming entry is given the
  id of the edited entry and passed to \<^verbatim>\<open>updateEntry\<close> (put), and the marker is
  cleared; otherwise the entry is passed to \<^verbatim>\<open>addEntry\<close> (add). After the storage
  call the cache is the full collection read back from the store. An entry submitted by
  the form has no id, and for such an entry \<^verbatim>\<open>addEntry\<close> succeeds. (With an id that is
  already taken, \<^verbatim>\<open>addEntry\<close> rejects and the handler stops before the reload.)
\<close>

theorem add_or_update:
  "(case editingEntry a of
      Some editing \<Rightarrow>
        handleAddEntry entry a =
          Inr \<lparr>db = snd (updateEntry (entry\<lparr>id' := id' editing\<rparr>) (db a)),
               entries = getEntries (snd (updateEntry (entry\<lparr>id' := id' editing\<rparr>) (db a))),
               editingEntry = None\<rparr>
    | None \<Rightarrow>
        (case addEntry entry (db a) of
           Inr (k, db') \<Rightarrow>
             handleAddEntry entry a = Inr \<lparr>db = db', entries = getEntries db', editingEntry = None\<rparr>
         | Inl err \<Rightarrow> handleAddEntry entry a = Inl err))
   \<and> (id' entry = None \<longrightarrow> (\<exists>k db'. addEntry entry (db a) = Inr (k, db')))"
  by (cases a)
     (auto simp: handleAddEntry_def loadEntries_def Let_def addEntry_def objectStore_add_def
       split: option.splits sum.splits prod.splits)

theorem add_or_update_witness:
  "handleAddEntry (logged 2 0 march) editing_first =
     Inr \<lparr>db = \<lparr>records = [stored 1 2 0 march, stored 2 0 30 march], keyGenerator = 3\<rparr>,
          entries = [stored 1 2 0 march, stored 2 0 30 march],
          editingEntry = None\<rparr>
   \<and> id' (logged 2 0 march) = None
   \<and> handleAddEntry (logged 2 0 march) idle =
     Inr \<lparr>db = \<lparr>records = [stored 1 1 45 january, stored 2 0 30 march, stored 3 2 0 march],
                 keyGenerator = 4\<rparr>,
          entries = [stored 1 1 45 january, stored 2 0 30 march, stored 3 2 0 march],
          editingEntry = None\<rparr>"
  using add_or_update [where a = editing_first and entry = "logged 2 0 march"]
    add_or_update [where a = idle and entry = "logged 2 0 march"]
  by (simp add: handleAddEntry_def loadEntries_def Let_def updateEntry_def addEntry_def
      objectStore_add_def objectStore_put_def getEntries_def objectStore_getAll_def
      editing_first_def idle_def two_entries_def stored_def logged_def)

section \<open>Totals by month\<close>

text \<open>
  C3. \<^verbatim>\<open>totalsByMonth\<close> has the property \<open>k\<close> exactly when an entry of the list has the
  month key \<open>k\<close>. When the entries with that key are integral and adding them up in
  order never leaves the safe range, the value of the property is the sum of
  \<open>hours * 60 + minutes\<close> over these entries; the entries of other months do not matter. The key is the year, a minus sign and the month counted from 1;
  two entries have the same key exactly when their year and month agree. An entry of
  March 2024 with one hour and 75 minutes has the key \<^verbatim>\<open>2024-3\<close> and contributes 135,
  with no normalisation of the minutes.
\<close>

theorem month_totals:
  "(obj_get (totalsByMonth es) k \<noteq> None) = (k \<in> monthKey ` set es)
   \<and> (exact_sum 0 (bucket monthKey k es) \<longrightarrow>
      obj_get (totalsByMonth es) k =
        (if k \<in> monthKey ` set es
         then Some (Num (sum_list (map int_minutes (bucket monthKey k es))))
         else None))
   \<and> monthKey e = decimal_int (getFullYear (createdAt e)) @ ''-''
                    @ decimal_int (int (getMonth (createdAt e)) + 1)
   \<and> (monthKey e = monthKey e') =
        (getFullYear (createdAt e) = getFullYear (createdAt e')
         \<and> getMonth (createdAt e) = getMonth (createdAt e'))
   \<and> (getFullYear d = 2024 \<and> getMonth d = 2 \<longrightarrow> monthKey (logged 1 75 d) = ''2024-3''
        \<and> exact_sum 0 [logged 1 75 d] \<and> int_minutes (logged 1 75 d) = 135)"
proof -
  have "monthKey (logged 1 75 d) = ''2024-3''" if "getFullYear d = 2024" "getMonth d = 2"
    using that by (simp add: monthKey_eq logged_simps decimal_int_def)
  moreover have "exact_sum 0 [logged 1 75 d]"
    by (simp add: logged_simps safe_def MAX_SAFE_INTEGER_def)
  moreover have "(obj_get (totalsByMonth es) k \<noteq> None) = (k \<in> monthKey ` set es)"
    using keys_totalsByMonth [of es, THEN arg_cong, of set]
    by (simp add: obj_get_None_iff set_first_seen)
  ultimately show ?thesis
    using totalsByMonth_value [of k es] monthKey_inj [of e e']
    by (simp add: bucket_sum_def monthKey_def logged_simps)
qed

theorem month_totals_witness:
  "exact_sum 0
     (bucket monthKey ''2024-3'' [logged 1 75 march, unparsed january, logged 0 30 march])
   \<and> obj_get (totalsByMonth [logged 1 75 march, unparsed january, logged 0 30 march]) ''2024-3''
       = Some (Num 165)
   \<and> getFullYear march = 2024 \<and> getMonth march = 2
   \<and> monthKey (logged 1 75 march) = ''2024-3''
   \<and> int_minutes (logged 1 75 march) = 135"
proof -
  have b: "bucket monthKey ''2024-3'' [logged 1 75 march, unparsed january, logged 0 30 march]
           = [logged 1 75 march, logged 0 30 march]"
    by (simp add: bucket_def monthKey_examples logged_simps unparsed_simps)
  have ex: "exact_sum 0 [logged 1 75 march, logged 0 30 march]"
    by (simp add: logged_simps safe_def MAX_SAFE_INTEGER_def)
  show ?thesis
    using month_totals [where k = "''2024-3''"
        and es = "[logged 1 75 march, unparsed january, logged 0 30 march]"
        and e = "logged 1 75 march" and e' = "logged 1 75 march" and d = march] ex
    by (simp add: b logged_simps unparsed_simps monthKey_examples date_examples decimal_int_def)
qed

text \<open>
  An entry whose fields did not parse contributes \<^verbatim>\<open>NaN\<close>, and a bucket that holds
  \<^verbatim>\<open>NaN\<close> is reset to 0 by the next entry of the same month: the first bucket below
  ends at 60, while the sum of the two contributions is \<^verbatim>\<open>NaN\<close>. And a duration
  beyond the safe range is rounded: one entry of 150119987579017 hours and 1 minute
  gives its month the total 9007199254741020, one less than \<open>hours * 60 + minutes\<close>.
\<close>

theorem month_totals_counterexample:
  "obj_get (totalsByMonth [unparsed march, logged 1 0 march]) ''2024-3'' = Some (Num 60)
   \<and> js_add (entry_minutes (unparsed march)) (entry_minutes (logged 1 0 march)) = NaN
   \<and> obj_get (totalsByMonth [logged 150119987579017 1 march]) ''2024-3''
       = Some (Num 9007199254741020)
   \<and> (150119987579017 :: int) * 60 + 1 = 9007199254741021"
  by (simp add: totalsByMonth_def add_to_bucket_def Let_def obj_get_def entry_minutes_def
      logged_simps unparsed_simps monthKey_examples rounding_examples Number_of_safe safe_def
      MAX_SAFE_INTEGER_def)

section \<open>Independence of the order of the entries\<close>

text \<open>
  C4. Take two orderings of the same entries and a key \<open>k\<close> such that, in both
  orderings, the entries of the bucket \<open>k\<close> are integral and adding them up in order
  never leaves the safe range. Then the month bucket \<open>k\<close> has the same total in both,
  and so has the year bucket \<open>k\<close>. That condition holds in every ordering when the
  entries of the bucket are integral and the sum of \<open>\<bar>hours\<bar> * 60 + \<bar>minutes\<bar>\<close> over
  them is a safe integer. When the condition holds of every bucket, the rendered month
  items, and the rendered year items, are the same sets.
\<close>

theorem totals_order_independent:
  assumes "mset xs = mset ys"
  shows "(exact_sum 0 (bucket monthKey k xs) \<and> exact_sum 0 (bucket monthKey k ys) \<longrightarrow>
            obj_get (totalsByMonth xs) k = obj_get (totalsByMonth ys) k)
       \<and> (exact_sum 0 (bucket yearKey k xs) \<and> exact_sum 0 (bucket yearKey k ys) \<longrightarrow>
            obj_get (totalsByYear xs) k = obj_get (totalsByYear ys) k)
       \<and> (list_all integral (bucket monthKey k xs)
            \<and> sum_list (map magnitude (bucket monthKey k xs)) \<le> MAX_SAFE_INTEGER \<longrightarrow>
            exact_sum 0 (bucket monthKey k xs) \<and> exact_sum 0 (bucket monthKey k ys)
            \<and> obj_get (totalsByMonth xs) k = obj_get (totalsByMonth ys) k)
       \<and> (list_all integral (bucket yearKey k xs)
            \<and> sum_list (map magnitude (bucket yearKey k xs)) \<le> MAX_SAFE_INTEGER \<longrightarrow>
            exact_sum 0 (bucket yearKey k xs) \<and> exact_sum 0 (bucket yearKey k ys)
            \<and> obj_get (totalsByYear xs) k = obj_get (totalsByYear ys) k)
       \<and> ((\<forall>j. exact_sum 0 (bucket monthKey j xs) \<and> exact_sum 0 (bucket monthKey j ys)) \<longrightarrow>
            set (getTotalTimeByMonth xs) = set (getTotalTimeByMonth ys))
       \<and> ((\<forall>j. exact_sum 0 (bucket yearKey j xs) \<and> exact_sum 0 (bucket yearKey j ys)) \<longrightarrow>
            set (getTotalTimeByYear xs) = set (getTotalTimeByYear ys))"
proof -
  have s: "set xs = set ys" using assms by (rule mset_eq_setD)
  have m: "obj_get (totalsByMonth xs) j = obj_get (totalsByMonth ys) j"
    if "exact_sum 0 (bucket monthKey j xs)" "exact_sum 0 (bucket monthKey j ys)" for j
    using that by (simp add: totalsByMonth_value s bucket_sum_mset [OF assms])
  have y: "obj_get (totalsByYear xs) j = obj_get (totalsByYear ys) j"
    if "exact_sum 0 (bucket yearKey j xs)" "exact_sum 0 (bucket yearKey j ys)" for j
    using that by (simp add: totalsByYear_value s bucket_sum_mset [OF assms])
  have ms: "set (getTotalTimeByMonth xs) = set (getTotalTimeByMonth ys)"
    if all: "\<forall>j. exact_sum 0 (bucket monthKey j xs) \<and> exact_sum 0 (bucket monthKey j ys)"
  proof -
    have "render_total (totalsByMonth xs) ` monthKey ` set ys
          = render_total (totalsByMonth ys) ` monthKey ` set ys"
      using all by (intro image_cong refl render_total_cong m) simp_all
    then show ?thesis
      by (simp add: set_getTotalTimeByMonth s)
  qed
  have ysets: "set (getTotalTimeByYear xs) = set (getTotalTimeByYear ys)"
    if all: "\<forall>j. exact_sum 0 (bucket yearKey j xs) \<and> exact_sum 0 (bucket yearKey j ys)"
  proof -
    have "render_total (totalsByYear xs) ` yearKey ` set ys
          = render_total (totalsByYear ys) ` yearKey ` set ys"
      using all by (intro image_cong refl render_total_cong y) simp_all
    then show ?thesis
      by (simp add: set_getTotalTimeByYear s)
  qed
  have mb: "exact_sum 0 (bucket monthKey k xs) \<and> exact_sum 0 (bucket monthKey k ys)
            \<and> obj_get (totalsByMonth xs) k = obj_get (totalsByMonth ys) k"
    if "list_all integral (bucket monthKey k xs)"
      "sum_list (map magnitude (bucket monthKey k xs)) \<le> MAX_SAFE_INTEGER"
    using exact_sum_any_order [OF bucket_mset [OF assms] that] m [of k] by simp
  have yb: "exact_sum 0 (bucket yearKey k xs) \<and> exact_sum 0 (bucket yearKey k ys)
            \<and> obj_get (totalsByYear xs) k = obj_get (totalsByYear ys) k"
    if "list_all integral (bucket yearKey k xs)"
      "sum_list (map magnitude (bucket yearKey k xs)) \<le> MAX_SAFE_INTEGER"
    using exact_sum_any_order [OF bucket_mset [OF assms] that] y [of k] by simp
  show ?thesis
    using m [of k] y [of k] mb yb ms ysets by (intro conjI impI) simp_all
qed

theorem totals_order_independent_witness:
  "mset [logged 1 45 march, unparsed january, logged 0 30 march]
     = mset [logged 0 30 march, logged 1 45 march, unparsed january]
   \<and> exact_sum 0 (bucket monthKey ''2024-3'' [logged 1 45 march, unparsed january, logged 0 30 march])
   \<and> exact_sum 0 (bucket monthKey ''2024-3'' [logged 0 30 march, logged 1 45 march, unparsed january])
   \<and> obj_get (totalsByMonth [logged 1 45 march, unparsed january, logged 0 30 march]) ''2024-3''
       = obj_get (totalsByMonth [logged 0 30 march, logged 1 45 march, unparsed january]) ''2024-3''
   \<and> list_all integral
        (bucket monthKey ''2024-3'' [logged 1 45 march, unparsed january, logged 0 30 march])
   \<and> sum_list (map magnitude
        (bucket monthKey ''2024-3'' [logged 1 45 march, unparsed january, logged 0 30 march]))
       \<le> MAX_SAFE_INTEGER
   \<and> mset [logged 1 45 march, logged 0 30 january] = mset [logged 0 30 january, logged 1 45 march]
   \<and> exact_sum 0 (bucket yearKey ''2024'' [logged 1 45 march, logged 0 30 january])
   \<and> exact_sum 0 (bucket yearKey ''2024'' [logged 0 30 january, logged 1 45 march])
   \<and> obj_get (totalsByYear [logged 1 45 march, logged 0 30 january]) ''2024''
       = obj_get (totalsByYear [logged 0 30 january, logged 1 45 march]) ''2024''
   \<and> list_all integral (bucket yearKey ''2024'' [logged 1 45 march, logged 0 30 january])
   \<and> sum_list (map magnitude (bucket yearKey ''2024'' [logged 1 45 march, logged 0 30 january]))
       \<le> MAX_SAFE_INTEGER
   \<and> set (getTotalTimeByMonth [logged 1 45 march, logged 0 30 january])
       = set (getTotalTimeByMonth [logged 0 30 january, logged 1 45 march])
   \<and> set (getTotalTimeByYear [logged 1 45 march, logged 0 30 january])
       = set (getTotalTimeByYear [logged 0 30 january, logged 1 45 march])"
proof -
  have h1: "mset [logged 1 45 march, unparsed january, logged 0 30 march]
            = mset [logged 0 30 march, logged 1 45 march, unparsed january]"
    by (simp add: ac_simps)
  have h2: "mset [logged 1 45 march, logged 0 30 january]
            = mset [logged 0 30 january, logged 1 45 march]"
    by (simp add: ac_simps)
  have ex: "exact_sum 0 (bucket key j [logged 1 45 march, logged 0 30 january])"
    "exact_sum 0 (bucket key j [logged 0 30 january, logged 1 45 march])" for key j
    by (simp_all add: bucket_def logged_simps safe_def MAX_SAFE_INTEGER_def)
  have ex3: "exact_sum 0 (bucket monthKey ''2024-3'' [logged 1 45 march, unparsed january, logged 0 30 march])"
    "exact_sum 0 (bucket monthKey ''2024-3'' [logged 0 30 march, logged 1 45 march, unparsed january])"
    by (simp_all add: bucket_def monthKey_examples logged_simps unparsed_simps safe_def
        MAX_SAFE_INTEGER_def)
  have b: "bucket monthKey ''2024-3'' [logged 1 45 march, unparsed january, logged 0 30 march]
           = [logged 1 45 march, logged 0 30 march]"
    by (simp add: bucket_def monthKey_examples logged_simps unparsed_simps)
  have mg: "list_all integral [logged 1 45 march, logged 0 30 march]"
    "sum_list (map magnitude [logged 1 45 march, logged 0 30 march]) \<le> MAX_SAFE_INTEGER"
    by (simp_all add: logged_simps MAX_SAFE_INTEGER_def)
  have by': "bucket yearKey ''2024'' [logged 1 45 march, logged 0 30 january]
           = [logged 1 45 march, logged 0 30 january]"
    by (simp add: bucket_def yearKey_examples logged_simps)
  have mgy: "list_all integral [logged 1 45 march, logged 0 30 january]"
    "sum_list (map magnitude [logged 1 45 march, logged 0 30 january]) \<le> MAX_SAFE_INTEGER"
    by (simp_all add: logged_simps MAX_SAFE_INTEGER_def)
  show ?thesis
    using h1 h2 ex ex3 mg mgy totals_order_independent [OF h1, of "''2024-3''"]
      totals_order_independent [OF h2, of "''2024''"]
    by (simp add: b by')
qed

text \<open>
  The same entries in two orders. With an entry whose fields did not parse, the month
  bucket and the year bucket end at 60 in one order and at \<^verbatim>\<open>NaN\<close> in the other. With
  three integral entries of \<open>2\<^sup>5\<^sup>3 - 1\<close>, 2 and 1 minutes, the sum passes the safe range
  and is rounded on the way: the month bucket ends at 9007199254740992 in one order and
  at 9007199254740994 in the other.
\<close>

theorem totals_order_independent_counterexample:
  "mset [unparsed march, logged 1 0 march] = mset [logged 1 0 march, unparsed march]
   \<and> obj_get (totalsByMonth [unparsed march, logged 1 0 march]) ''2024-3'' = Some (Num 60)
   \<and> obj_get (totalsByMonth [logged 1 0 march, unparsed march]) ''2024-3'' = Some NaN
   \<and> obj_get (totalsByYear [unparsed march, logged 1 0 march]) ''2024'' = Some (Num 60)
   \<and> obj_get (totalsByYear [logged 1 0 march, unparsed march]) ''2024'' = Some NaN
   \<and> mset [logged 0 9007199254740991 march, logged 0 2 march, logged 0 1 march]
       = mset [logged 0 1 march, logged 0 2 march, logged 0 9007199254740991 march]
   \<and> obj_get (totalsByMonth
          [logged 0 9007199254740991 march, logged 0 2 march, logged 0 1 march]) ''2024-3''
       = Some (Num 9007199254740992)
   \<and> obj_get (totalsByMonth
          [logged 0 1 march, logged 0 2 march, logged 0 9007199254740991 march]) ''2024-3''
       = Some (Num 9007199254740994)"
  by (simp add: totalsByMonth_def totalsByYear_def add_to_bucket_def Let_def obj_get_def
      entry_minutes_def logged_simps unparsed_simps monthKey_examples yearKey_examples
      rounding_examples Number_of_safe safe_def MAX_SAFE_INTEGER_def ac_simps)

section \<open>Order of the buckets\<close>

text \<open>
  C5. The month items are listed in the order in which their keys first occur in the
  entry list. The year items are not: a year from 0 to \<open>2\<^sup>3\<^sup>2 - 2\<close> is an array-index
  key, and \<^verbatim>\<open>Object.keys\<close> lists those first, in ascending numeric order; the other
  years follow in the order in which they first occur.
\<close>

theorem bucket_order:
  "map li_key (getTotalTimeByMonth es) = first_seen (map monthKey es)
   \<and> map li_key (getTotalTimeByYear es) =
       map decimal_int
         (sort (filter array_index_year (remdups (map (\<lambda>e. getFullYear (createdAt e)) es))))
       @ map decimal_int
         (filter (\<lambda>y. \<not> array_index_year y)
           (first_seen (map (\<lambda>e. getFullYear (createdAt e)) es)))"
  using month_order [of es] year_order [of es] by simp

theorem bucket_order_witness:
  "map li_key (getTotalTimeByMonth [logged 1 0 march, logged 2 0 december_2023, logged 3 0 march])
     = [''2024-3'', ''2023-12'']
   \<and> map li_key (getTotalTimeByYear [logged 1 0 march, logged 2 0 december_2023, logged 3 0 march])
     = [''2023'', ''2024'']"
  using bucket_order [of "[logged 1 0 march, logged 2 0 december_2023, logged 3 0 march]"]
  by (simp add: logged_simps monthKey_examples date_examples array_index_year_def
      decimal_int_def)

text \<open>
  An entry of 2024 followed by an entry of 2023: the year items come out as 2023, 2024,
  while the keys first occur in the order 2024, 2023.
\<close>

theorem year_order_counterexample:
  "map li_key (getTotalTimeByYear [logged 1 0 march, logged 2 0 december_2023])
     = [''2023'', ''2024'']
   \<and> first_seen (map yearKey [logged 1 0 march, logged 2 0 december_2023]) = [''2024'', ''2023'']"
  by (simp add: year_order logged_simps yearKey_examples date_examples array_index_year_def
      decimal_int_def)

section \<open>Delete\<close>

text \<open>
  C6. Deleting the id \<open>k\<close> leaves exactly the records whose id is not \<open>k\<close>, unchanged
  and in the same order: no record is found under \<open>k\<close> afterwards, and every other id
  finds the record it found before. In a well-formed store that holds \<open>k\<close>, one record
  goes. When no record has the id \<open>k\<close>, the store is left as it was; the operation has
  no error result. The controller's cache is the remaining collection, and its edit
  marker is not touched.
\<close>

theorem delete_removes_exactly:
  "getEntries (deleteEntry k s) = filter (\<lambda>r. id' r \<noteq> Some k) (getEntries s)
   \<and> objectStore_get k (deleteEntry k s) = None
   \<and> (j \<noteq> k \<longrightarrow> objectStore_get j (deleteEntry k s) = objectStore_get j s)
   \<and> (store_ok s \<and> has_key k (getEntries s) \<longrightarrow>
        length (getEntries (deleteEntry k s)) + 1 = length (getEntries s))
   \<and> (\<not> has_key k (getEntries s) \<longrightarrow> deleteEntry k s = s)
   \<and> handleDeleteEntry k a =
        \<lparr>db = deleteEntry k (db a),
         entries = filter (\<lambda>r. id' r \<noteq> Some k) (getEntries (db a)),
         editingEntry = editingEntry a\<rparr>"
proof -
  have "length (filter (\<lambda>r. id' r \<noteq> Some k) (records s)) + 1 = length (records s)"
    if "store_ok s" "has_key k (records s)"
    using that by (intro sorted_keys_one) (simp_all add: store_ok_def)
  then show ?thesis
    using delete_absent [of k s] objectStore_get_delete [of j k s] objectStore_get_delete [of k k s]
    by (cases a)
       (simp add: getEntries_def deleteEntry_def objectStore_getAll_def handleDeleteEntry_def
         loadEntries_def, simp add: objectStore_delete_def)
qed

theorem delete_removes_exactly_witness:
  "getEntries (deleteEntry 1 two_entries) = [stored 2 0 30 march]
   \<and> objectStore_get 2 (deleteEntry 1 two_entries) = Some (stored 2 0 30 march)
   \<and> store_ok two_entries \<and> has_key 1 (getEntries two_entries)
   \<and> length (getEntries (deleteEntry 1 two_entries)) + 1 = length (getEntries two_entries)
   \<and> \<not> has_key 5 (getEntries two_entries) \<and> deleteEntry 5 two_entries = two_entries"
proof -
  have ok: "store_ok two_entries"
    by (simp add: store_ok_def two_entries_def stored_simps)
  have g: "getEntries two_entries = [stored 1 1 45 january, stored 2 0 30 march]"
    by (simp add: getEntries_def objectStore_getAll_def two_entries_def)
  have h: "has_key 1 (getEntries two_entries)" "\<not> has_key 5 (getEntries two_entries)"
    by (simp_all add: g has_key_def stored_simps)
  show ?thesis
    using ok h delete_removes_exactly [of 1 two_entries 2]
      delete_removes_exactly [of 5 two_entries 2]
    by (simp add: g stored_simps objectStore_get_two_entries)
qed

section \<open>Display of a total\<close>

text \<open>
  C7. A total of \<open>t\<close> minutes in the safe range that is not negative, or is a multiple
  of 60, is shown as the pair of \<open>t div 60\<close> and \<open>t mod 60\<close>, written
  \<^verbatim>\<open>key: hours:minutes\<close>, with no rounding and no carry. Two entries of the same month,
  of 1 hour 45 minutes and of 30 minutes, give that month the total 135, shown as
  \<^verbatim>\<open>2:15\<close>.
\<close>

theorem display_split:
  "(obj_get totals k = Some (Num t) \<and> safe t \<and> (0 \<le> t \<or> t mod 60 = 0) \<longrightarrow>
      render_total totals k =
        \<lparr>li_key = k, totalHours = Num (t div 60), minutesLeft = Num (t mod 60),
         li_text = k @ '': '' @ decimal_int (t div 60) @ '':'' @ decimal_int (t mod 60)\<rparr>)
   \<and> (monthKey (logged 1 45 d) = monthKey (logged 0 30 d') \<longrightarrow>
        obj_get (totalsByMonth [logged 1 45 d, logged 0 30 d']) (monthKey (logged 1 45 d))
          = Some (Num 135)
        \<and> getTotalTimeByMonth [logged 1 45 d, logged 0 30 d'] =
            [\<lparr>li_key = monthKey (logged 1 45 d), totalHours = Num 2, minutesLeft = Num 15,
              li_text = monthKey (logged 1 45 d) @ '': 2:15''\<rparr>])"
proof -
  have one: "render_total totals k =
        \<lparr>li_key = k, totalHours = Num (t div 60), minutesLeft = Num (t mod 60),
         li_text = k @ '': '' @ decimal_int (t div 60) @ '':'' @ decimal_int (t mod 60)\<rparr>"
    if v: "obj_get totals k = Some (Num t)" and s: "safe t" and n: "0 \<le> t \<or> t mod 60 = 0"
    for totals k t
  proof -
    have r: "rem_60 (Num t) = Num (t mod 60)"
    proof (cases "0 \<le> t")
      case True
      then show ?thesis by simp
    next
      case False
      with n have "t mod 60 = 0" by simp
      then have "(- t) mod 60 = 0" by (simp add: zmod_zminus1_eq_if)
      with False \<open>t mod 60 = 0\<close> show ?thesis by simp
    qed
    show ?thesis
      by (simp add: render_total_def Let_def v r floor_div_60_safe [OF s]
          ToString_safe [OF safe_div_60 [OF s]] ToString_safe [OF safe_mod_60]
          del: rem_60.simps)
  qed
  have two: "obj_get (totalsByMonth [logged 1 45 d, logged 0 30 d']) (monthKey (logged 1 45 d))
          = Some (Num 135)
        \<and> getTotalTimeByMonth [logged 1 45 d, logged 0 30 d'] =
            [\<lparr>li_key = monthKey (logged 1 45 d), totalHours = Num 2, minutesLeft = Num 15,
              li_text = monthKey (logged 1 45 d) @ '': 2:15''\<rparr>]"
    if eq: "monthKey (logged 1 45 d) = monthKey (logged 0 30 d')"
  proof -
    let ?es = "[logged 1 45 d, logged 0 30 d']"
    have b: "bucket monthKey (monthKey (logged 1 45 d)) ?es = ?es"
      by (simp add: bucket_def eq)
    have ex: "exact_sum 0 ?es"
      by (simp add: logged_simps safe_def MAX_SAFE_INTEGER_def)
    have v: "obj_get (totalsByMonth ?es) (monthKey (logged 1 45 d)) = Some (Num 135)"
      using totalsByMonth_value [of "monthKey (logged 1 45 d)" ?es] ex
      by (simp add: b bucket_sum_def logged_simps)
    have ks: "Object_keys (totalsByMonth ?es) = [monthKey (logged 1 45 d)]"
      by (simp add: Object_keys_totalsByMonth eq [symmetric])
    have "safe 135" "(0::int) \<le> 135 \<or> (135::int) mod 60 = 0"
      by (simp_all add: safe_def MAX_SAFE_INTEGER_def)
    from one [OF v this] show ?thesis
      by (simp add: v getTotalTimeByMonth_def Let_def ks decimal_int_def)
  qed
  show ?thesis
  proof (rule conjI; rule impI)
    assume "obj_get totals k = Some (Num t) \<and> safe t \<and> (0 \<le> t \<or> t mod 60 = 0)"
    then show "render_total totals k =
        \<lparr>li_key = k, totalHours = Num (t div 60), minutesLeft = Num (t mod 60),
         li_text = k @ '': '' @ decimal_int (t div 60) @ '':'' @ decimal_int (t mod 60)\<rparr>"
      by (intro one) simp_all
  next
    assume "monthKey (logged 1 45 d) = monthKey (logged 0 30 d')"
    then show "obj_get (totalsByMonth [logged 1 45 d, logged 0 30 d']) (monthKey (logged 1 45 d))
          = Some (Num 135)
        \<and> getTotalTimeByMonth [logged 1 45 d, logged 0 30 d'] =
            [\<lparr>li_key = monthKey (logged 1 45 d), totalHours = Num 2, minutesLeft = Num 15,
              li_text = monthKey (logged 1 45 d) @ '': 2:15''\<rparr>]"
      by (rule two)
  qed
qed

theorem display_split_witness:
  "obj_get [(''2024-3'', Num 135)] ''2024-3'' = Some (Num 135) \<and> safe 135
   \<and> render_total [(''2024-3'', Num 135)] ''2024-3'' =
        \<lparr>li_key = ''2024-3'', totalHours = Num 2, minutesLeft = Num 15,
         li_text = ''2024-3: 2:15''\<rparr>
   \<and> obj_get [(''2024-3'', Num (- 120))] ''2024-3'' = Some (Num (- 120)) \<and> safe (- 120)
   \<and> render_total [(''2024-3'', Num (- 120))] ''2024-3'' =
        \<lparr>li_key = ''2024-3'', totalHours = Num (- 2), minutesLeft = Num 0,
         li_text = ''2024-3: -2:0''\<rparr>
   \<and> monthKey (logged 1 45 march) = monthKey (logged 0 30 march)
   \<and> getTotalTimeByMonth [logged 1 45 march, logged 0 30 march] =
        [\<lparr>li_key = ''2024-3'', totalHours = Num 2, minutesLeft = Num 15,
          li_text = ''2024-3: 2:15''\<rparr>]"
  using display_split [of "[(''2024-3'', Num 135)]" "''2024-3''" 135 march march]
    display_split [of "[(''2024-3'', Num (- 120))]" "''2024-3''" "- 120" march march]
  by (simp add: obj_get_def monthKey_examples logged_simps decimal_int_def safe_def
      MAX_SAFE_INTEGER_def)

text \<open>
  A month whose only entry has \<open>-75\<close> minutes: the floor of \<open>-75 / 60\<close> is \<open>-2\<close> and
  \<open>-75 mod 60\<close> is 45, but the item shows \<^verbatim>\<open>-2:-15\<close>, since \<^verbatim>\<open>%\<close> takes the sign of the
  total. And a month whose only entry has 1125899906842624 hours and 56 minutes: its
  total is \<open>60 * 2\<^sup>5\<^sup>0 + 56\<close>, whose quotient by 60 is rounded up to an integer before
  the floor is taken, and the item shows one hour too many.
\<close>

theorem display_split_counterexample:
  "getTotalTimeByMonth [logged 0 (- 75) march] =
     [\<lparr>li_key = ''2024-3'', totalHours = Num (- 2), minutesLeft = Num (- 15),
       li_text = ''2024-3: -2:-15''\<rparr>]
   \<and> (- 75 :: int) div 60 = - 2 \<and> (- 75 :: int) mod 60 = 45
   \<and> obj_get (totalsByMonth [logged 1125899906842624 56 march]) ''2024-3''
       = Some (Num 67553994410557496)
   \<and> getTotalTimeByMonth [logged 1125899906842624 56 march] =
     [\<lparr>li_key = ''2024-3'', totalHours = Num 1125899906842625, minutesLeft = Num 56,
       li_text = ''2024-3: 1125899906842625:56''\<rparr>]
   \<and> (67553994410557496 :: int) div 60 = 1125899906842624"
proof -
  have a: "totalsByMonth [logged 0 (- 75) march] = [(''2024-3'', Num (- 75))]"
    by (simp add: totalsByMonth_def add_to_bucket_def Let_def obj_get_def entry_minutes_def
        logged_simps monthKey_examples Number_of_safe safe_def MAX_SAFE_INTEGER_def)
  have b: "totalsByMonth [logged 1125899906842624 56 march]
           = [(''2024-3'', Num 67553994410557496)]"
    by (simp add: totalsByMonth_def add_to_bucket_def Let_def obj_get_def entry_minutes_def
        logged_simps monthKey_examples rounding_examples)
  have k: "Object_keys [(''2024-3'', v)] = [''2024-3'']" for v
    by (simp add: Object_keys_def not_array_index_minus)
  have s: "safe (- 75)"
    by (simp add: safe_def MAX_SAFE_INTEGER_def)
  have t: "ToString (Num (- 2)) = ''-2''" "ToString (Num (- 15)) = ''-15''"
    "ToString (Num 56) = ''56''" "ToString (Num 1125899906842625) = ''1125899906842625''"
    by (simp_all add: ToString_safe safe_def MAX_SAFE_INTEGER_def decimal_int_def
        decimal_nat.simps digit_char_def)
  show ?thesis
    by (simp add: getTotalTimeByMonth_def Let_def a b k render_total_def obj_get_def
        rounding_examples floor_div_60_safe [OF s] t)
qed

section \<open>Form submission\<close>

text \<open>
  C8. \<^verbatim>\<open>handleSubmit\<close> passes to the callback, once, the entry without id whose hours and
  minutes are \<^verbatim>\<open>parseInt\<close> of the two fields in base 10 and whose \<^verbatim>\<open>createdAt\<close> is the
  current time, and leaves both fields empty. \<^verbatim>\<open>parseInt\<close> gives a string of digits its
  value in base 10 (the digit at position \<open>i\<close> from the right counts \<open>10\<^sup>i\<close> times)
  when that value is a safe integer, reads the decimal numeral of every safe integer back
  as that integer, and yields \<^verbatim>\<open>NaN\<close> on the empty string.
\<close>

theorem form_submission:
  "handleSubmit now onSubmit (f, w) =
     (\<lparr>form_hours = [], form_minutes = []\<rparr>,
      onSubmit \<lparr>id' = None, hours = parseInt (form_hours f), minutes = parseInt (form_minutes f),
                createdAt = now\<rparr> w)
   \<and> (ds \<noteq> [] \<and> list_all is_digit_unit ds
        \<and> safe (\<Sum>i<length ds. int (rev ds ! i - 48) * 10 ^ i) \<longrightarrow>
        parseInt ds = Num (\<Sum>i<length ds. int (rev ds ! i - 48) * 10 ^ i))
   \<and> (safe i \<longrightarrow> parseInt (units (decimal_int i)) = Num i)
   \<and> parseInt [] = NaN"
proof -
  have "parseInt ds = Num (\<Sum>i<length ds. int (rev ds ! i - 48) * 10 ^ i)"
    if "ds \<noteq> []" "list_all is_digit_unit ds"
      and s: "safe (\<Sum>i<length ds. int (rev ds ! i - 48) * 10 ^ i)"
  proof -
    have "int (digits_value ds) = (\<Sum>i<length ds. int (rev ds ! i - 48) * 10 ^ i)"
      by (simp add: digits_value_positional)
    with parseInt_digits [OF that(1,2)] s show ?thesis
      by (simp add: Number_of_safe)
  qed
  moreover have "parseInt [] = NaN"
    by (simp add: parseInt_def)
  ultimately show ?thesis
    by (simp add: handleSubmit_def Let_def parseInt_decimal_int Number_of_safe)
qed

theorem form_submission_witness:
  "handleSubmit march (\<lambda>entry log. entry # log)
       (\<lparr>form_hours = units ''1'', form_minutes = units ''75''\<rparr>, [])
     = (\<lparr>form_hours = [], form_minutes = []\<rparr>, [logged 1 75 march])
   \<and> units ''75'' \<noteq> [] \<and> list_all is_digit_unit (units ''75'')
   \<and> parseInt (units ''75'') = Num 75
   \<and> safe (- 5) \<and> parseInt (units (decimal_int (- 5))) = Num (- 5)"
proof -
  have d: "units ''75'' \<noteq> []" "list_all is_digit_unit (units ''75'')"
    by (simp_all add: units_def is_digit_unit_def)
  have s: "safe (- 5)"
    by (simp add: safe_def MAX_SAFE_INTEGER_def)
  show ?thesis
    using d s form_submission [of march "\<lambda>entry log. entry # log"
        "\<lparr>form_hours = units ''1'', form_minutes = units ''75''\<rparr>" "[]" "units ''75''" "- 5"]
    by (simp add: parseInt_examples logged_def)
qed

text \<open>
  The field \<^verbatim>\<open>9007199254740993\<close>, which is \<open>2\<^sup>5\<^sup>3 + 1\<close>: no double has that value, and
  the entry gets 9007199254740992 hours.
\<close>

theorem form_submission_counterexample:
  "hours (hd (snd (handleSubmit march (\<lambda>entry log. entry # log)
       (\<lparr>form_hours = units ''9007199254740993'', form_minutes = units ''0''\<rparr>, []))))
     = Num 9007199254740992
   \<and> parseInt (units ''9007199254740993'') = Num 9007199254740992
   \<and> (\<Sum>i<length (units ''9007199254740993'').
          int (rev (units ''9007199254740993'') ! i - 48) * 10 ^ i) = 9007199254740993"
proof -
  have d: "units ''9007199254740993'' \<noteq> []" "list_all is_digit_unit (units ''9007199254740993'')"
    by (simp_all add: units_def is_digit_unit_def)
  have v: "digits_value (units ''9007199254740993'') = 9007199254740993"
    by (simp add: digits_value_def units_def)
  have p: "parseInt (units ''9007199254740993'') = Num 9007199254740992"
    using parseInt_digits [OF d] by (simp add: v rounding_examples)
  have "(\<Sum>i<length (units ''9007199254740993'').
          int (rev (units ''9007199254740993'') ! i - 48) * 10 ^ i)
        = int (digits_value (units ''9007199254740993''))"
    by (simp only: digits_value_positional) simp
  then show ?thesis
    by (simp add: handleSubmit_def Let_def p v)
qed

section \<open>The empty collection\<close>

text \<open>
  C9. With no entries at all, the list of month totals and the list of year totals are
  both empty.
\<close>

theorem empty_collection_no_buckets:
  "getTotalTimeByMonth [] = [] \<and> getTotalTimeByYear [] = []"
  by (simp add: getTotalTimeByMonth_def getTotalTimeByYear_def totalsByMonth_def
      totalsByYear_def Object_keys_def)

section \<open>A stale edit marker\<close>

text \<open>
  C10. While the entry \<open>e\<close> with id \<open>k\<close> is marked as being edited, deleting \<open>k\<close>
  leaves the marker in place and no record under \<open>k\<close>. The next call of
  \<^verbatim>\<open>handleAddEntry\<close> succeeds: it puts the incoming entry under \<open>k\<close>, so that the store
  and the reloaded cache hold a record with that id again, and clears the marker.
\<close>

theorem stale_edit_marker_reinserts:
  assumes "editingEntry a = Some e" and "id' e = Some k"
  shows "editingEntry (handleDeleteEntry k a) = Some e
       \<and> objectStore_get k (db (handleDeleteEntry k a)) = None
       \<and> handleAddEntry entry (handleDeleteEntry k a) =
           Inr \<lparr>db = snd (updateEntry (entry\<lparr>id' := Some k\<rparr>) (deleteEntry k (db a))),
                entries = getEntries (snd (updateEntry (entry\<lparr>id' := Some k\<rparr>) (deleteEntry k (db a)))),
                editingEntry = None\<rparr>
       \<and> objectStore_get k (snd (updateEntry (entry\<lparr>id' := Some k\<rparr>) (deleteEntry k (db a))))
           = Some (entry\<lparr>id' := Some k\<rparr>)
       \<and> entry\<lparr>id' := Some k\<rparr>
           \<in> set (getEntries (snd (updateEntry (entry\<lparr>id' := Some k\<rparr>) (deleteEntry k (db a)))))"
proof -
  have "entry\<lparr>id' := Some k\<rparr> \<in> set (store_record k (entry\<lparr>id' := Some k\<rparr>) rs)" for rs
    by (rule in_store_record)
  then show ?thesis
    using assms
    by (cases a)
       (simp add: handleDeleteEntry_def loadEntries_def handleAddEntry_def Let_def deleteEntry_def
         objectStore_get_delete updateEntry_def objectStore_get_put fst_objectStore_put
         getEntries_def objectStore_getAll_def, simp add: objectStore_put_def)
qed

theorem stale_edit_marker_reinserts_witness:
  "editingEntry editing_first = Some (stored 1 1 45 january)
   \<and> id' (stored 1 1 45 january) = Some 1
   \<and> handleDeleteEntry 1 editing_first =
       \<lparr>db = \<lparr>records = [stored 2 0 30 march], keyGenerator = 3\<rparr>,
        entries = [stored 2 0 30 march],
        editingEntry = Some (stored 1 1 45 january)\<rparr>
   \<and> handleAddEntry (logged 2 0 march) (handleDeleteEntry 1 editing_first) =
       Inr \<lparr>db = \<lparr>records = [stored 1 2 0 march, stored 2 0 30 march], keyGenerator = 3\<rparr>,
            entries = [stored 1 2 0 march, stored 2 0 30 march],
            editingEntry = None\<rparr>"
  using stale_edit_marker_reinserts [of editing_first "stored 1 1 45 january" 1 "logged 2 0 march"]
  by (simp add: handleDeleteEntry_def handleAddEntry_def loadEntries_def Let_def deleteEntry_def
      objectStore_delete_def updateEntry_def objectStore_put_def getEntries_def
      objectStore_getAll_def editing_first_def two_entries_def stored_def logged_def)


end
